theory Spec2Isabelle
  imports Complex_Main "HOL-Library.Word"
begin

unbundle bit_operations_syntax

section \<open>Machine types\<close>

text \<open>
  The filter is the instance \<^verbatim>\<open>BloomFilter<uint64_t>\<close> on an LP64 platform:
  \<^verbatim>\<open>size_t\<close> and \<^verbatim>\<open>uint64_t\<close> are both 64-bit unsigned integers (the source converts
  between the two freely), and \<^verbatim>\<open>uint8_t\<close> is a byte. Arithmetic on them wraps around.
\<close>

type_synonym u8 = "8 word"
type_synonym u64 = "64 word"

text \<open>
  The outcomes of the source other than a normal return. \<open>InvalidParameter\<close> is the
  \<^verbatim>\<open>std::invalid_argument\<close> thrown by the constructors. The other three are operations
  whose behaviour C++ leaves undefined: an index past the end of the byte vector, a
  remainder by zero, and the conversion to \<^verbatim>\<open>size_t\<close> of a \<^verbatim>\<open>double\<close> that is NaN or out
  of range. Failure of a memory allocation is not modelled.
\<close>

datatype error = InvalidParameter | OutOfBounds | DivisionByZero | BadFloatConversion

section \<open>Hash engine (hash\_functions.hpp)\<close>

subsection \<open>MurmurHash3\<close>

definition rotl64 :: "u64 \<Rightarrow> nat \<Rightarrow> u64" where
  "rotl64 x r = (push_bit r x) OR (drop_bit (64 - r) x)"

definition fmix64 :: "u64 \<Rightarrow> u64" where
  "fmix64 k0 =
     (let k1 = k0 XOR drop_bit 33 k0;
          k2 = k1 * 0xff51afd7ed558ccd;
          k3 = k2 XOR drop_bit 33 k2;
          k4 = k3 * 0xc4ceb9fe1a85ec53
      in k4 XOR drop_bit 33 k4)"

definition c1 :: u64 where "c1 = 0x87c37b91114253d5"
definition c2 :: u64 where "c2 = 0x4cf5ad432745937f"

text \<open>
  \<^verbatim>\<open>blocks[i]\<close> reads eight bytes of the input through a \<^verbatim>\<open>uint64_t\<close> pointer. The value
  read depends on the byte order of the host; it is modelled little-endian (the first
  byte is the least significant), as on x86-64 and AArch64.
\<close>

definition load64 :: "u8 list \<Rightarrow> u64" where
  "load64 bs = foldr (\<lambda>b acc. push_bit 8 acc OR ucast b) bs 0"

definition block :: "u8 list \<Rightarrow> nat \<Rightarrow> u64" where
  "block bytes i = load64 (take 8 (drop (8 * i) bytes))"

text \<open>One round of the body loop, for the block \<open>k\<close>.\<close>

definition mix_block :: "u64 \<Rightarrow> u64 \<Rightarrow> u64" where
  "mix_block h k =
     (let k1 = k * c1;
          k1 = rotl64 k1 31;
          k1 = k1 * c2;
          h1 = h XOR k1;
          h1 = rotl64 h1 27
      in h1 * 5 + 0x52dce729)"

text \<open>The body loop \<^verbatim>\<open>for (i = 0; i < nblocks; ++i)\<close>, counting up from \<open>i\<close>.\<close>

function murmur_body :: "u8 list \<Rightarrow> nat \<Rightarrow> nat \<Rightarrow> u64 \<Rightarrow> u64" where
  "murmur_body bytes nblocks i h1 =
     (if i < nblocks then murmur_body bytes nblocks (Suc i) (mix_block h1 (block bytes i))
      else h1)"
  by pat_completeness auto
termination
  by (relation "measure (\<lambda>(bytes, nblocks, i, h1). nblocks - i)") auto

declare murmur_body.simps [simp del]

text \<open>
  The \<^verbatim>\<open>switch (size & 7)\<close> on the tail: case \<open>r\<close> falls through every case below it,
  so the byte \<open>tail[j]\<close> is folded in exactly when \<open>j < r\<close>, and the mixing at case 1 runs
  exactly when \<open>r \<ge> 1\<close>. The tail has \<open>r\<close> bytes, so every read is in range.
\<close>

definition tail_byte :: "u8 list \<Rightarrow> nat \<Rightarrow> nat \<Rightarrow> u64 \<Rightarrow> u64" where
  "tail_byte tail r j k1 = (if j < r then k1 XOR push_bit (8 * j) (ucast (tail ! j)) else k1)"

definition murmur_tail :: "u8 list \<Rightarrow> u64 \<Rightarrow> u64" where
  "murmur_tail tail h1 =
     (let r = length tail;
          k1 = tail_byte tail r 6 0;
          k1 = tail_byte tail r 5 k1;
          k1 = tail_byte tail r 4 k1;
          k1 = tail_byte tail r 3 k1;
          k1 = tail_byte tail r 2 k1;
          k1 = tail_byte tail r 1 k1
      in if 1 \<le> r then
           (let k1 = k1 XOR ucast (tail ! 0);
                k1 = k1 * c1;
                k1 = rotl64 k1 31;
                k1 = k1 * c2
            in h1 XOR k1)
         else h1)"

definition MurmurHash3 :: "u64 \<Rightarrow> u8 list \<Rightarrow> u64" where
  "MurmurHash3 seed bytes =
     (let size = length bytes;
          nblocks = size div 8;
          h1 = murmur_body bytes nblocks 0 seed;
          h1 = murmur_tail (drop (nblocks * 8) bytes) h1;
          h1 = h1 XOR of_nat size
      in fmix64 h1)"

subsection \<open>DoubleHasher\<close>

text \<open>
  The members \<^verbatim>\<open>bit_array_size_\<close>, \<^verbatim>\<open>hash1_\<close> and \<^verbatim>\<open>hash2_\<close>. Both base hashes are
  \<^verbatim>\<open>MurmurHash3\<close> objects, which hold nothing but a seed.
\<close>

record DoubleHasher =
  dh_bit_array_size :: u64
  dh_hash1 :: u64
  dh_hash2 :: u64

text \<open>The constructor with its default seeds, as the filter calls it.\<close>

definition new_DoubleHasher :: "u64 \<Rightarrow> DoubleHasher" where
  "new_DoubleHasher m =
     \<lparr>dh_bit_array_size = m, dh_hash1 = 0, dh_hash2 = 0x1234567890abcdef\<rparr>"

text \<open>\<^verbatim>\<open>if (h2 % 2 == 0) h2 += 1\<close>\<close>

definition make_odd :: "u64 \<Rightarrow> u64" where
  "make_odd h2 = (if h2 mod 2 = 0 then h2 + 1 else h2)"

text \<open>
  The loop of \<^verbatim>\<open>get_all_hashes\<close>, writing into the caller's array \<open>hashes\<close>. The sum
  and the product are 64-bit and wrap around before the remainder is taken.
\<close>

function fill_hashes :: "u64 \<Rightarrow> u64 \<Rightarrow> u64 \<Rightarrow> u64 \<Rightarrow> u64 \<Rightarrow> u64 list \<Rightarrow> u64 list" where
  "fill_hashes m h1 h2 k i hashes =
     (if i < k
      then fill_hashes m h1 h2 k (i + 1) (hashes[unat i := (h1 + i * h2) mod m])
      else hashes)"
  by pat_completeness auto
termination
  by (relation "measure (\<lambda>(m, h1, h2, k, i, hashes). unat k - unat i)") (simp, unat_arith)

declare fill_hashes.simps [simp del]

text \<open>
  \<^verbatim>\<open>get_all_hashes(data, size, k, hashes)\<close> for a caller that passes a zero-initialised
  array of \<open>k\<close> entries, as \<^verbatim>\<open>insert\<close> and \<^verbatim>\<open>contains\<close> do. With \<open>m = 0\<close> the first round of
  the loop takes a remainder by zero.
\<close>

definition get_all_hashes :: "DoubleHasher \<Rightarrow> u8 list \<Rightarrow> u64 \<Rightarrow> error + u64 list" where
  "get_all_hashes hs bytes k =
     (let h1 = MurmurHash3 (dh_hash1 hs) bytes;
          h2 = make_odd (MurmurHash3 (dh_hash2 hs) bytes)
      in if 0 < k \<and> dh_bit_array_size hs = 0 then Inl DivisionByZero
         else Inr (fill_hashes (dh_bit_array_size hs) h1 h2 k 0 (replicate (unat k) 0)))"

section \<open>Parameter calculator (types.hpp)\<close>

text \<open>
  A \<^verbatim>\<open>double\<close> is a NaN, an infinity or a number. The comparisons are those of IEEE 754:
  every comparison with a NaN is false.
\<close>

datatype double = NaN | MInf | Val real | PInf

fun double_le :: "double \<Rightarrow> double \<Rightarrow> bool" where
  "double_le NaN y = False"
| "double_le x NaN = False"
| "double_le MInf y = True"
| "double_le x PInf = True"
| "double_le (Val a) (Val b) = (a \<le> b)"
| "double_le x y = False"

definition double_ge :: "double \<Rightarrow> double \<Rightarrow> bool" where
  "double_ge x y = double_le y x"

definition double_lt :: "double \<Rightarrow> double \<Rightarrow> bool" where
  "double_lt x y = (double_le x y \<and> \<not> double_le y x)"

definition DEFAULT_FALSE_POSITIVE_RATE :: double where
  "DEFAULT_FALSE_POSITIVE_RATE = Val (1 / 100)"

definition MIN_BIT_ARRAY_SIZE :: u64 where "MIN_BIT_ARRAY_SIZE = 64"
definition MIN_HASH_FUNCTIONS :: u64 where "MIN_HASH_FUNCTIONS = 1"
definition MAX_HASH_FUNCTIONS :: u64 where "MAX_HASH_FUNCTIONS = 32"

text \<open>
  The rounded arithmetic of the three formulas (\<^verbatim>\<open>std::log\<close>, \<^verbatim>\<open>std::ceil\<close>,
  \<^verbatim>\<open>std::round\<close>, \<^verbatim>\<open>std::exp\<close>, \<^verbatim>\<open>std::pow\<close> and the conversions between \<^verbatim>\<open>double\<close> and
  \<^verbatim>\<open>size_t\<close>) is not modelled. Each formula is a field of the record \<open>libm\<close>, which every
  definition that evaluates one takes as its first argument, so a theorem about such a
  definition holds whatever the arithmetic returns:
  \<^item> \<open>ceil_bits n p\<close> is \<^verbatim>\<open>static_cast<size_t>(std::ceil(-double(n) * std::log(p) / LN_2_SQUARED))\<close>
    for a \<open>p\<close> that is not a NaN, and \<open>None\<close> where the conversion is undefined;
  \<^item> \<open>round_hashes m n\<close> is \<^verbatim>\<open>static_cast<size_t>(std::round(double(m) / double(n) * LN_2))\<close>,
    and \<open>None\<close> where the conversion is undefined;
  \<^item> \<open>pow_fill m k n\<close> is \<^verbatim>\<open>std::pow(1.0 - std::exp(-double(k) * double(n) / double(m)), double(k))\<close>.
\<close>

record libm =
  ceil_bits :: "u64 \<Rightarrow> double \<Rightarrow> u64 option"
  round_hashes :: "u64 \<Rightarrow> u64 \<Rightarrow> u64 option"
  pow_fill :: "u64 \<Rightarrow> u64 \<Rightarrow> u64 \<Rightarrow> double"

text \<open>
  A NaN passes both comparisons of the guard, so it is not replaced by the default rate;
  the logarithm, the product, the quotient and the ceiling of a NaN are NaN, and its
  conversion to \<^verbatim>\<open>size_t\<close> is undefined.
\<close>

definition calculate_optimal_bit_array_size :: "libm \<Rightarrow> u64 \<Rightarrow> double \<Rightarrow> error + u64" where
  "calculate_optimal_bit_array_size L expected_elements false_positive_rate =
     (if expected_elements = 0 then Inr MIN_BIT_ARRAY_SIZE
      else
        (let p = (if double_le false_positive_rate (Val 0) \<or> double_ge false_positive_rate (Val 1)
                  then DEFAULT_FALSE_POSITIVE_RATE else false_positive_rate)
         in case (if p = NaN then None else ceil_bits L expected_elements p) of
              None \<Rightarrow> Inl BadFloatConversion
            | Some result \<Rightarrow> Inr (max result MIN_BIT_ARRAY_SIZE)))"

definition calculate_optimal_hash_count :: "libm \<Rightarrow> u64 \<Rightarrow> u64 \<Rightarrow> error + u64" where
  "calculate_optimal_hash_count L bit_array_size expected_elements =
     (if expected_elements = 0 then Inr 1
      else case round_hashes L bit_array_size expected_elements of
             None \<Rightarrow> Inl BadFloatConversion
           | Some result \<Rightarrow> Inr (max MIN_HASH_FUNCTIONS (min result MAX_HASH_FUNCTIONS)))"

definition estimate_false_positive_rate :: "libm \<Rightarrow> u64 \<Rightarrow> u64 \<Rightarrow> u64 \<Rightarrow> double" where
  "estimate_false_positive_rate L bit_array_size hash_count inserted_elements =
     (if bit_array_size = 0 \<or> hash_count = 0 then Val 1
      else if inserted_elements = 0 then Val 0
      else pow_fill L bit_array_size hash_count inserted_elements)"

section \<open>The filter (bloom\_filter.hpp)\<close>

text \<open>
  The data members of \<^verbatim>\<open>BloomFilter\<close>; the field \<open>m_x\<close> is the member \<^verbatim>\<open>x_\<close>.
\<close>

record BloomFilter =
  m_bit_array_size :: u64
  m_bit_array_bytes :: u64
  m_hash_count :: u64
  m_expected_elements :: u64
  m_false_positive_rate :: double
  m_inserted_count :: u64
  m_bit_array :: "u8 list"
  m_hasher :: DoubleHasher

subsection \<open>Construction\<close>

text \<open>\<^verbatim>\<open>BloomFilter(size_t expected_elements, double false_positive_rate)\<close>\<close>

definition new_BloomFilter :: "libm \<Rightarrow> u64 \<Rightarrow> double \<Rightarrow> error + BloomFilter" where
  "new_BloomFilter L expected_elements false_positive_rate =
     (if expected_elements = 0 then Inl InvalidParameter
      else if double_le false_positive_rate (Val 0) \<or> double_ge false_positive_rate (Val 1)
      then Inl InvalidParameter
      else
        case calculate_optimal_bit_array_size L expected_elements false_positive_rate of
          Inl e \<Rightarrow> Inl e
        | Inr bit_array_size \<Rightarrow>
            (case calculate_optimal_hash_count L bit_array_size expected_elements of
               Inl e \<Rightarrow> Inl e
             | Inr hash_count \<Rightarrow>
                 (let bit_array_bytes = (bit_array_size + 7) div 8
                  in Inr \<lparr>m_bit_array_size = bit_array_size,
                          m_bit_array_bytes = bit_array_bytes,
                          m_hash_count = hash_count,
                          m_expected_elements = expected_elements,
                          m_false_positive_rate = false_positive_rate,
                          m_inserted_count = 0,
                          m_bit_array = replicate (unat bit_array_bytes) 0,
                          m_hasher = new_DoubleHasher bit_array_size\<rparr>)))"

text \<open>
  \<^verbatim>\<open>BloomFilter(size_t bit_array_size, size_t hash_count, size_t expected_elements)\<close>.
  The member initialisers run before the two checks; none of them can fail.
\<close>

definition new_BloomFilter_explicit :: "libm \<Rightarrow> u64 \<Rightarrow> u64 \<Rightarrow> u64 \<Rightarrow> error + BloomFilter" where
  "new_BloomFilter_explicit L bit_array_size hash_count expected_elements =
     (let bit_array_bytes = (bit_array_size + 7) div 8;
          rate = estimate_false_positive_rate L bit_array_size hash_count expected_elements;
          hasher = new_DoubleHasher bit_array_size
      in if bit_array_size = 0 then Inl InvalidParameter
         else if hash_count = 0 \<or> hash_count > MAX_HASH_FUNCTIONS then Inl InvalidParameter
         else Inr \<lparr>m_bit_array_size = bit_array_size,
                   m_bit_array_bytes = bit_array_bytes,
                   m_hash_count = hash_count,
                   m_expected_elements = expected_elements,
                   m_false_positive_rate = rate,
                   m_inserted_count = 0,
                   m_bit_array = replicate (unat bit_array_bytes) 0,
                   m_hasher = hasher\<rparr>)"

subsection \<open>Bit array\<close>

text \<open>
  The part of \<^verbatim>\<open>set_bit\<close> and of \<^verbatim>\<open>get_bit\<close> below the range check. The vector is indexed
  with \<^verbatim>\<open>operator[]\<close>, which does not check the index.
\<close>

definition set_bit_body :: "BloomFilter \<Rightarrow> u64 \<Rightarrow> error + BloomFilter" where
  "set_bit_body f position =
     (let byte_index = unat (position div 8);
          bit_index = unat (position mod 8)
      in if byte_index < length (m_bit_array f)
         then Inr (f\<lparr>m_bit_array :=
                       (m_bit_array f)[byte_index :=
                          (m_bit_array f ! byte_index) OR push_bit bit_index 1]\<rparr>)
         else Inl OutOfBounds)"

definition bf_set_bit :: "BloomFilter \<Rightarrow> u64 \<Rightarrow> error + BloomFilter" where
  "bf_set_bit f position =
     (if position \<ge> m_bit_array_size f then Inr f else set_bit_body f position)"

definition get_bit_body :: "BloomFilter \<Rightarrow> u64 \<Rightarrow> error + bool" where
  "get_bit_body f position =
     (let byte_index = unat (position div 8);
          bit_index = unat (position mod 8)
      in if byte_index < length (m_bit_array f)
         then Inr ((m_bit_array f ! byte_index) AND push_bit bit_index 1 \<noteq> 0)
         else Inl OutOfBounds)"

definition get_bit :: "BloomFilter \<Rightarrow> u64 \<Rightarrow> error + bool" where
  "get_bit f position =
     (if position \<ge> m_bit_array_size f then Inr False else get_bit_body f position)"

subsection \<open>insert and contains\<close>

text \<open>
  The argument \<^verbatim>\<open>(data, size)\<close> is \<open>None\<close> for a null pointer and \<open>Some bytes\<close> for a
  pointer to \<open>size = length bytes\<close> readable bytes. The overloads on \<^verbatim>\<open>std::string\<close> pass
  \<open>Some\<close> of the string's bytes.
\<close>

text \<open>The loop \<^verbatim>\<open>for (size_t hash : hashes) set_bit(hash)\<close>.\<close>

fun set_bits :: "BloomFilter \<Rightarrow> u64 list \<Rightarrow> error + BloomFilter" where
  "set_bits f [] = Inr f"
| "set_bits f (h # hs) =
     (case bf_set_bit f h of Inl e \<Rightarrow> Inl e | Inr f' \<Rightarrow> set_bits f' hs)"

definition bf_insert :: "BloomFilter \<Rightarrow> u8 list option \<Rightarrow> error + BloomFilter" where
  "bf_insert f data =
     (case data of
        None \<Rightarrow> Inr f
      | Some bytes \<Rightarrow>
          if length bytes = 0 then Inr f
          else
            (case get_all_hashes (m_hasher f) bytes (m_hash_count f) of
               Inl e \<Rightarrow> Inl e
             | Inr hashes \<Rightarrow>
                 (case set_bits f hashes of
                    Inl e \<Rightarrow> Inl e
                  | Inr f' \<Rightarrow> Inr (f'\<lparr>m_inserted_count := m_inserted_count f' + 1\<rparr>))))"

text \<open>The loop of \<^verbatim>\<open>contains\<close>, which returns at the first bit that is not set.\<close>

fun all_bits_set :: "BloomFilter \<Rightarrow> u64 list \<Rightarrow> error + bool" where
  "all_bits_set f [] = Inr True"
| "all_bits_set f (h # hs) =
     (case get_bit f h of
        Inl e \<Rightarrow> Inl e
      | Inr b \<Rightarrow> if \<not> b then Inr False else all_bits_set f hs)"

definition contains :: "BloomFilter \<Rightarrow> u8 list option \<Rightarrow> error + bool" where
  "contains f data =
     (case data of
        None \<Rightarrow> Inr False
      | Some bytes \<Rightarrow>
          if length bytes = 0 then Inr False
          else
            (case get_all_hashes (m_hasher f) bytes (m_hash_count f) of
               Inl e \<Rightarrow> Inl e
             | Inr hashes \<Rightarrow> all_bits_set f hashes))"

subsection \<open>Accessors, clear and count\_set\_bits\<close>

definition bf_size :: "BloomFilter \<Rightarrow> u64" where
  "bf_size f = m_inserted_count f"

definition capacity :: "BloomFilter \<Rightarrow> u64" where
  "capacity f = m_expected_elements f"

definition false_positive_rate :: "BloomFilter \<Rightarrow> double" where
  "false_positive_rate f = m_false_positive_rate f"

definition estimated_false_positive_rate :: "libm \<Rightarrow> BloomFilter \<Rightarrow> double" where
  "estimated_false_positive_rate L f =
     estimate_false_positive_rate L (m_bit_array_size f) (m_hash_count f) (m_inserted_count f)"

definition bit_array_size :: "BloomFilter \<Rightarrow> u64" where
  "bit_array_size f = m_bit_array_size f"

definition hash_count :: "BloomFilter \<Rightarrow> u64" where
  "hash_count f = m_hash_count f"

text \<open>\<open>sizeof_this\<close> is the constant \<^verbatim>\<open>sizeof(*this)\<close> of the platform.\<close>

definition memory_usage :: "u64 \<Rightarrow> BloomFilter \<Rightarrow> u64" where
  "memory_usage sizeof_this f = m_bit_array_bytes f + sizeof_this"

definition clear :: "BloomFilter \<Rightarrow> BloomFilter" where
  "clear f = f\<lparr>m_bit_array := map (\<lambda>b. 0) (m_bit_array f), m_inserted_count := 0\<rparr>"

text \<open>The loop \<^verbatim>\<open>while (byte) { byte &= byte - 1; count++; }\<close>.\<close>

function count_byte :: "u8 \<Rightarrow> u64 \<Rightarrow> u64" where
  "count_byte byte count =
     (if byte \<noteq> 0 then count_byte (byte AND (byte - 1)) (count + 1) else count)"
  by pat_completeness auto
termination
proof (relation "measure (\<lambda>(byte, count). unat byte)")
  show "wf (measure (\<lambda>(byte, count). unat byte))"
    by simp
next
  fix byte :: u8 and count :: u64
  assume "byte \<noteq> 0"
  then have "byte - 1 < byte"
    by unat_arith
  moreover have "byte AND (byte - 1) \<le> byte - 1"
    by (rule word_and_le1)
  ultimately have "unat (byte AND (byte - 1)) < unat byte"
    by unat_arith
  then show "((byte AND (byte - 1), count + 1), (byte, count)) \<in> measure (\<lambda>(byte, count). unat byte)"
    by simp
qed

declare count_byte.simps [simp del]

text \<open>The loop over the full bytes, from the index \<open>i\<close>.\<close>

function count_full_bytes :: "u8 list \<Rightarrow> u64 \<Rightarrow> u64 \<Rightarrow> u64 \<Rightarrow> error + u64" where
  "count_full_bytes bit_array full_bytes i count =
     (if i < full_bytes
      then if unat i < length bit_array
           then count_full_bytes bit_array full_bytes (i + 1) (count_byte (bit_array ! unat i) count)
           else Inl OutOfBounds
      else Inr count)"
  by pat_completeness auto
termination
  by (relation "measure (\<lambda>(bit_array, full_bytes, i, count). unat full_bytes - unat i)")
     (simp, unat_arith)

declare count_full_bytes.simps [simp del]

definition count_set_bits :: "BloomFilter \<Rightarrow> error + u64" where
  "count_set_bits f =
     (let full_bytes = m_bit_array_size f div 8
      in case count_full_bytes (m_bit_array f) full_bytes 0 0 of
           Inl e \<Rightarrow> Inl e
         | Inr count \<Rightarrow>
             (let extra_bits = m_bit_array_size f mod 8
              in if extra_bits > 0 \<and> unat full_bytes < length (m_bit_array f)
                 then
                   (let last_byte = m_bit_array f ! unat full_bytes;
                        mask = push_bit (unat extra_bits) 1 - 1;
                        last_byte = last_byte AND mask
                    in Inr (count_byte last_byte count))
                 else Inr count))"

section \<open>Sequences of calls and the data model\<close>

text \<open>A run of \<^verbatim>\<open>insert\<close> calls, one for each argument of the list, in order.\<close>

fun insert_all :: "BloomFilter \<Rightarrow> u8 list option list \<Rightarrow> error + BloomFilter" where
  "insert_all f [] = Inr f"
| "insert_all f (d # ds) =
     (case bf_insert f d of Inl e \<Rightarrow> Inl e | Inr f' \<Rightarrow> insert_all f' ds)"

text \<open>
  The data model of a filter: a bit array of \<open>m \<ge> 1\<close> bits backed by \<open>\<lceil>m / 8\<rceil>\<close> bytes,
  and a hash engine that reduces modulo the same \<open>m\<close>. It says nothing about the
  contents of the bytes, about the hash count or about the insertion counter.
\<close>

definition well_formed :: "BloomFilter \<Rightarrow> bool" where
  "well_formed f \<longleftrightarrow>
     m_bit_array_size f \<noteq> 0 \<and>
     length (m_bit_array f) = (unat (m_bit_array_size f) + 7) div 8 \<and>
     dh_bit_array_size (m_hasher f) = m_bit_array_size f"

text \<open>The bit number \<open>n\<close> of a byte array: bit \<open>n mod 8\<close> of byte \<open>n div 8\<close>.\<close>

definition stored_bit :: "u8 list \<Rightarrow> nat \<Rightarrow> bool" where
  "stored_bit bit_array n = bit (bit_array ! (n div 8)) (n mod 8)"

text \<open>The number of \<^verbatim>\<open>insert\<close> calls of a run that pass a non-empty byte sequence.\<close>

definition nonempty_calls :: "u8 list option list \<Rightarrow> nat" where
  "nonempty_calls ds = length (filter (\<lambda>d. d \<noteq> None \<and> d \<noteq> Some []) ds)"

section \<open>Concrete instances\<close>

text \<open>
  An instance of the arithmetic for evaluating the constructors at concrete arguments:
  at every argument it returns the values that the three formulas take for
  \<open>n = 1000\<close> and \<open>p = 0.01\<close>, which are \<open>m = 9586\<close>, \<open>k = 7\<close> and a rate of one percent.
\<close>

definition sample_libm :: libm where
  "sample_libm =
     \<lparr>ceil_bits = (\<lambda>n p. Some 9586),
      round_hashes = (\<lambda>m n. Some 7),
      pow_fill = (\<lambda>m k n. Val (1 / 100))\<rparr>"

text \<open>
  A filter of ten bits and three hashes, as \<^verbatim>\<open>BloomFilter(10, 3, 5)\<close> builds it, but with
  every bit of its two bytes set, also the six bits at the positions 10 to 15.
\<close>

definition full_filter :: BloomFilter where
  "full_filter =
     \<lparr>m_bit_array_size = 10,
      m_bit_array_bytes = 2,
      m_hash_count = 3,
      m_expected_elements = 5,
      m_false_positive_rate = Val (1 / 100),
      m_inserted_count = 0,
      m_bit_array = [0xFF, 0xFF],
      m_hasher = new_DoubleHasher 10\<rparr>"


section \<open>The probe indices\<close>

lemma fill_hashes_length: "length (fill_hashes m h1 h2 k i hs) = length hs"
proof (induction m h1 h2 k i hs rule: fill_hashes.induct)
  case (1 m h1 h2 k i hashes)
  show ?case
  proof (cases "i < k")
    case True
    then show ?thesis using 1 by (subst fill_hashes.simps) simp
  next
    case False
    then show ?thesis by (subst fill_hashes.simps) simp
  qed
qed

lemma unat_succ_less: "(i::u64) < k \<Longrightarrow> unat (i + 1) = Suc (unat i)"
  by unat_arith

lemma fill_hashes_nth:
  "j < length hs \<Longrightarrow>
   fill_hashes m h1 h2 k i hs ! j =
     (if unat i \<le> j \<and> j < unat k then (h1 + of_nat j * h2) mod m else hs ! j)"
proof (induction m h1 h2 k i hs rule: fill_hashes.induct)
  case (1 m h1 h2 k i hashes)
  show ?case
  proof (cases "i < k")
    case True
    have s: "unat (i + 1) = Suc (unat i)" using True by (rule unat_succ_less)
    have lt: "unat i < unat k" using True by (simp add: word_less_nat_alt)
    have step: "fill_hashes m h1 h2 k i hashes =
                fill_hashes m h1 h2 k (i + 1) (hashes[unat i := (h1 + i * h2) mod m])"
      using True by (subst fill_hashes.simps) simp
    have ih: "fill_hashes m h1 h2 k (i + 1) (hashes[unat i := (h1 + i * h2) mod m]) ! j =
          (if unat (i + 1) \<le> j \<and> j < unat k then (h1 + of_nat j * h2) mod m
           else hashes[unat i := (h1 + i * h2) mod m] ! j)"
      using 1 True by simp
    show ?thesis
    proof (cases "j = unat i")
      case True
      then show ?thesis using step ih s lt "1.prems" by simp
    next
      case False
      then show ?thesis using step ih s lt "1.prems" by auto
    qed
  next
    case False
    then have "\<not> (unat i \<le> j \<and> j < unat k)" by (auto simp: word_less_nat_alt)
    then show ?thesis using False by (subst fill_hashes.simps) auto
  qed
qed


lemma make_odd_OR: "make_odd h = h OR 1"
  by (simp add: make_odd_def or_one_eq even_iff_mod_2_eq_zero)

lemma make_odd_odd: "odd (make_odd h)"
  by (metis even_iff_mod_2_eq_zero even_plus_one_iff make_odd_def)

section \<open>Counting the bits of a byte\<close>

lemma bits_even_nat: "{i. bit (2 * n :: nat) i} = Suc ` {i. bit n i}"
proof (rule set_eqI)
  fix i
  show "i \<in> {i. bit (2 * n) i} \<longleftrightarrow> i \<in> Suc ` {i. bit n i}"
    by (cases i) (auto simp: bit_double_iff image_iff bit_Suc bit_0)
qed

lemma bits_odd_nat: "{i. bit (Suc (2 * n)) i} = insert 0 (Suc ` {i. bit n i})"
proof (rule set_eqI)
  fix i
  show "i \<in> {i. bit (Suc (2 * n)) i} \<longleftrightarrow> i \<in> insert 0 (Suc ` {i. bit n i})"
    by (cases i) (auto simp: image_iff bit_Suc bit_0)
qed

lemma finite_bits_nat: "finite {i. bit (n::nat) i}"
proof (induction n rule: nat_bit_induct)
  case zero
  then show ?case by simp
next
  case (even n)
  then show ?case by (simp add: bits_even_nat)
next
  case (odd n)
  then show ?case by (simp add: bits_odd_nat)
qed

lemma card_bits_even_nat: "card {i. bit (2 * n :: nat) i} = card {i. bit n i}"
  by (simp add: bits_even_nat card_image)

lemma card_bits_odd_nat: "card {i. bit (Suc (2 * n)) i} = Suc (card {i. bit n i})"
proof -
  have "0 \<notin> Suc ` {i. bit n i}" by auto
  then show ?thesis
    using finite_bits_nat [of n] by (simp add: bits_odd_nat card_image)
qed

lemma and_pred_even: "0 < n \<Longrightarrow> (2 * n) AND (2 * n - 1) = 2 * (n AND (n - 1))" for n :: nat
proof -
  assume "0 < n"
  then have "(2 * n - 1) div 2 = n - 1" by arith
  then show ?thesis
    by (subst and_nat_rec) simp
qed

lemma and_pred_odd: "(Suc (2 * n)) AND (Suc (2 * n) - 1) = 2 * n" for n :: nat
  by (subst and_nat_rec) simp

lemma card_bits_and_pred_nat:
  "0 < n \<Longrightarrow> Suc (card {i. bit (n AND (n - 1)) i}) = card {i. bit n i}" for n :: nat
proof (induction n rule: nat_bit_induct)
  case zero
  then show ?case by simp
next
  case (even n)
  have "card {i. bit (2 * n AND (2 * n - 1)) i} = card {i. bit (n AND (n - 1)) i}"
    using even.hyps by (simp only: and_pred_even card_bits_even_nat)
  then show ?case
    using even.IH even.hyps by (simp only: card_bits_even_nat)
next
  case (odd n)
  have "card {i. bit (Suc (2 * n) AND (Suc (2 * n) - 1)) i} = card {i. bit n i}"
    by (simp only: and_pred_odd card_bits_even_nat)
  then show ?case
    by (simp only: card_bits_odd_nat)
qed

lemma bits_unat: "{i. bit (unat w) i} = {i. bit w i}" for w :: "'a::len word"
  by (simp add: bit_unsigned_iff)

lemma card_bits_and_pred:
  "w \<noteq> 0 \<Longrightarrow> Suc (card {i. bit (w AND (w - 1)) i}) = card {i. bit w i}" for w :: "'a::len word"
proof -
  assume nz: "w \<noteq> 0"
  then have pos: "0 < unat w" by (simp add: unat_gt_0)
  have "unat (w AND (w - 1)) = unat w AND (unat w - 1)"
    using nz by (simp add: unsigned_and_eq unat_minus_one)
  then have "{i. bit (w AND (w - 1)) i} = {i. bit (unat w AND (unat w - 1)) i}"
    using bits_unat [of "w AND (w - 1)"] by simp
  then show ?thesis
    using card_bits_and_pred_nat [OF pos] bits_unat [of w] by simp
qed


lemma count_byte_card: "count_byte b c = c + of_nat (card {i. bit b i})"
proof (induction b c rule: count_byte.induct)
  case (1 byte count)
  show ?case
  proof (cases "byte = 0")
    case True
    have "{i. bit (0::u8) i} = {}" by simp
    then show ?thesis using True by (subst count_byte.simps) (simp only: card.empty, simp)
  next
    case False
    have "count_byte byte count = count_byte (byte AND (byte - 1)) (count + 1)"
      using False by (subst count_byte.simps) simp
    also have "\<dots> = count + 1 + of_nat (card {i. bit (byte AND (byte - 1)) i})"
      using 1 False by simp
    also have "\<dots> = count + of_nat (Suc (card {i. bit (byte AND (byte - 1)) i}))"
      by simp
    also have "\<dots> = count + of_nat (card {i. bit byte i})"
      using card_bits_and_pred [OF False] by simp
    finally show ?thesis .
  qed
qed

section \<open>The bit array\<close>

lemma unat_div8: "unat (p div 8) = unat p div 8" for p :: u64
  by (simp add: unat_div)

lemma unat_mod8: "unat (p mod 8) = unat p mod 8" for p :: u64
  by (simp add: unat_mod)

lemma byte_index_in_range:
  assumes "well_formed f" and "p < m_bit_array_size f"
  shows "unat p div 8 < length (m_bit_array f)"
proof -
  have "unat p < unat (m_bit_array_size f)"
    using assms(2) by (simp add: word_less_nat_alt)
  then have "unat p div 8 < (unat (m_bit_array_size f) + 7) div 8"
    by arith
  then show ?thesis
    using assms(1) by (simp add: well_formed_def)
qed

lemma get_bit_wf:
  assumes "well_formed f" and "p < m_bit_array_size f"
  shows "get_bit f p = Inr (stored_bit (m_bit_array f) (unat p))"
proof -
  have "\<not> m_bit_array_size f \<le> p"
    using assms(2) by simp
  then show ?thesis
    using byte_index_in_range [OF assms]
    by (simp add: get_bit_def get_bit_body_def unat_div8 unat_mod8 stored_bit_def
        bit_iff_and_push_bit_not_eq_0)
qed

lemma bf_set_bit_wf:
  assumes "well_formed f" and "p < m_bit_array_size f"
  shows "bf_set_bit f p =
           Inr (f\<lparr>m_bit_array := (m_bit_array f)[unat p div 8 :=
                   (m_bit_array f ! (unat p div 8)) OR push_bit (unat p mod 8) 1]\<rparr>)"
proof -
  have "\<not> m_bit_array_size f \<le> p"
    using assms(2) by simp
  then show ?thesis
    using byte_index_in_range [OF assms]
    by (simp add: bf_set_bit_def set_bit_body_def unat_div8 unat_mod8 Let_def)
qed

lemma bit_or_single: "b < 8 \<Longrightarrow> bit (x OR push_bit b 1) i \<longleftrightarrow> bit x i \<or> i = b" for x :: u8
  by (auto simp: bit_or_iff bit_exp_iff)

lemma stored_bit_update:
  assumes "q div 8 < length arr"
  shows "stored_bit (arr[q div 8 := (arr ! (q div 8)) OR push_bit (q mod 8) 1]) n
           \<longleftrightarrow> stored_bit arr n \<or> n = q"
proof (cases "n div 8 = q div 8")
  case True
  have "n = q \<longleftrightarrow> n mod 8 = q mod 8"
    using True by (metis div_mult_mod_eq)
  moreover have "bit (arr ! (q div 8) OR push_bit (q mod 8) 1) (n mod 8)
                   \<longleftrightarrow> bit (arr ! (q div 8)) (n mod 8) \<or> n mod 8 = q mod 8"
    by (rule bit_or_single) simp
  ultimately show ?thesis
    using True assms by (simp add: stored_bit_def del: push_bit_of_1)
next
  case False
  then have "n \<noteq> q" by auto
  then show ?thesis
    using False by (simp add: stored_bit_def)
qed

lemma set_bits_wf:
  assumes "well_formed f" and "\<forall>h \<in> set hs. h < m_bit_array_size f"
  shows "\<exists>arr'. set_bits f hs = Inr (f\<lparr>m_bit_array := arr'\<rparr>) \<and>
                length arr' = length (m_bit_array f) \<and>
                (\<forall>n. stored_bit arr' n \<longleftrightarrow> stored_bit (m_bit_array f) n \<or> n \<in> unat ` set hs)"
  using assms
proof (induction hs arbitrary: f)
  case Nil
  have "set_bits f [] = Inr (f\<lparr>m_bit_array := m_bit_array f\<rparr>)"
    by simp
  then show ?case by fastforce
next
  case (Cons h hs)
  define arr1 where
    "arr1 = (m_bit_array f)[unat h div 8 :=
               (m_bit_array f ! (unat h div 8)) OR push_bit (unat h mod 8) 1]"
  define f1 where "f1 = f\<lparr>m_bit_array := arr1\<rparr>"
  have h_lt: "h < m_bit_array_size f"
    using Cons.prems(2) by simp
  have step: "bf_set_bit f h = Inr f1"
    using bf_set_bit_wf [OF Cons.prems(1) h_lt] by (simp add: f1_def arr1_def)
  have len1: "length arr1 = length (m_bit_array f)"
    by (simp add: arr1_def)
  have wf1: "well_formed f1"
    using Cons.prems(1) len1 by (simp add: well_formed_def f1_def)
  have rest: "\<forall>h \<in> set hs. h < m_bit_array_size f1"
    using Cons.prems(2) by (simp add: f1_def)
  obtain arr' where arr':
    "set_bits f1 hs = Inr (f1\<lparr>m_bit_array := arr'\<rparr>)"
    "length arr' = length (m_bit_array f1)"
    "\<forall>n. stored_bit arr' n \<longleftrightarrow> stored_bit (m_bit_array f1) n \<or> n \<in> unat ` set hs"
    using Cons.IH [OF wf1 rest] by blast
  have bits1: "stored_bit arr1 n \<longleftrightarrow> stored_bit (m_bit_array f) n \<or> n = unat h" for n
    unfolding arr1_def
    by (rule stored_bit_update) (rule byte_index_in_range [OF Cons.prems(1) h_lt])
  have a: "set_bits f (h # hs) = Inr (f\<lparr>m_bit_array := arr'\<rparr>)"
    using step arr'(1) by (simp add: f1_def)
  have b: "length arr' = length (m_bit_array f)"
    using arr'(2) len1 by (simp add: f1_def)
  have "stored_bit arr' n \<longleftrightarrow>
          stored_bit (m_bit_array f) n \<or> n \<in> unat ` set (h # hs)" for n
  proof -
    have "stored_bit arr' n \<longleftrightarrow> stored_bit arr1 n \<or> n \<in> unat ` set hs"
      using arr'(3) by (simp add: f1_def)
    then show ?thesis
      using bits1 [of n] by auto
  qed
  then have c: "\<forall>n. stored_bit arr' n \<longleftrightarrow>
                  stored_bit (m_bit_array f) n \<or> n \<in> unat ` set (h # hs)"
    by simp
  show ?case
    by (rule exI [of _ arr']) (intro conjI a b c)
qed

lemma all_bits_set_wf:
  assumes "well_formed f" and "\<forall>h \<in> set hs. h < m_bit_array_size f"
  shows "all_bits_set f hs = Inr (\<forall>h \<in> set hs. stored_bit (m_bit_array f) (unat h))"
  using assms(2)
proof (induction hs)
  case Nil
  then show ?case by simp
next
  case (Cons h hs)
  have "get_bit f h = Inr (stored_bit (m_bit_array f) (unat h))"
    using Cons.prems by (simp add: get_bit_wf [OF assms(1)])
  then show ?case
    using Cons by simp
qed

lemma get_all_hashes_wf:
  assumes "dh_bit_array_size hs \<noteq> 0"
  shows "\<exists>xs. get_all_hashes hs bytes k = Inr xs \<and> length xs = unat k \<and>
              (\<forall>x \<in> set xs. x < dh_bit_array_size hs)"
proof -
  define h1 where "h1 = MurmurHash3 (dh_hash1 hs) bytes"
  define h2 where "h2 = make_odd (MurmurHash3 (dh_hash2 hs) bytes)"
  define xs where "xs = fill_hashes (dh_bit_array_size hs) h1 h2 k 0 (replicate (unat k) 0)"
  have eq: "get_all_hashes hs bytes k = Inr xs"
    using assms by (simp add: get_all_hashes_def xs_def h1_def h2_def Let_def)
  have len: "length xs = unat k"
    by (simp add: xs_def fill_hashes_length)
  have pos: "0 < dh_bit_array_size hs"
    using assms by (simp add: word_gt_0)
  have "xs ! j < dh_bit_array_size hs" if "j < unat k" for j
  proof -
    have "xs ! j = (h1 + of_nat j * h2) mod dh_bit_array_size hs"
      using that by (simp add: xs_def fill_hashes_nth)
    then show ?thesis
      using pos by (simp add: word_mod_less_divisor)
  qed
  then have "\<forall>x \<in> set xs. x < dh_bit_array_size hs"
    using len by (auto simp: in_set_conv_nth)
  then show ?thesis
    using eq len by simp
qed

lemma bf_insert_wf:
  assumes "well_formed f" and "bytes \<noteq> []"
  shows "\<exists>hs arr'. get_all_hashes (m_hasher f) bytes (m_hash_count f) = Inr hs \<and>
           (\<forall>h \<in> set hs. h < m_bit_array_size f) \<and>
           bf_insert f (Some bytes) =
             Inr (f\<lparr>m_bit_array := arr', m_inserted_count := m_inserted_count f + 1\<rparr>) \<and>
           length arr' = length (m_bit_array f) \<and>
           (\<forall>n. stored_bit arr' n \<longleftrightarrow> stored_bit (m_bit_array f) n \<or> n \<in> unat ` set hs)"
proof -
  have nz: "dh_bit_array_size (m_hasher f) \<noteq> 0"
    using assms(1) by (simp add: well_formed_def)
  obtain hs where hs:
    "get_all_hashes (m_hasher f) bytes (m_hash_count f) = Inr hs"
    "\<forall>h \<in> set hs. h < dh_bit_array_size (m_hasher f)"
    using get_all_hashes_wf [OF nz] by blast
  have lt: "\<forall>h \<in> set hs. h < m_bit_array_size f"
    using hs(2) assms(1) by (simp add: well_formed_def)
  obtain arr' where arr':
    "set_bits f hs = Inr (f\<lparr>m_bit_array := arr'\<rparr>)"
    "length arr' = length (m_bit_array f)"
    "\<forall>n. stored_bit arr' n \<longleftrightarrow> stored_bit (m_bit_array f) n \<or> n \<in> unat ` set hs"
    using set_bits_wf [OF assms(1) lt] by blast
  have ins: "bf_insert f (Some bytes) =
          Inr (f\<lparr>m_bit_array := arr', m_inserted_count := m_inserted_count f + 1\<rparr>)"
    using assms(2) hs(1) arr'(1) by (simp add: bf_insert_def)
  show ?thesis
    by (rule exI [of _ hs], rule exI [of _ arr']) (intro conjI hs(1) lt ins arr'(2,3))
qed

lemma bf_insert_any:
  assumes "well_formed f"
  shows "\<exists>arr'. bf_insert f d =
             Inr (f\<lparr>m_bit_array := arr',
                    m_inserted_count := m_inserted_count f + of_nat (nonempty_calls [d])\<rparr>) \<and>
           length arr' = length (m_bit_array f) \<and>
           (\<forall>n. stored_bit (m_bit_array f) n \<longrightarrow> stored_bit arr' n)"
proof (cases "d = None \<or> d = Some []")
  case True
  then have "bf_insert f d =
      Inr (f\<lparr>m_bit_array := m_bit_array f,
             m_inserted_count := m_inserted_count f + of_nat (nonempty_calls [d])\<rparr>)"
    by (auto simp: bf_insert_def nonempty_calls_def)
  then show ?thesis
    by (intro exI [of _ "m_bit_array f"]) simp
next
  case False
  then obtain bytes where d: "d = Some bytes" and ne: "bytes \<noteq> []"
    by (cases d) auto
  obtain hs arr' where ins:
    "get_all_hashes (m_hasher f) bytes (m_hash_count f) = Inr hs"
    "\<forall>h \<in> set hs. h < m_bit_array_size f"
    "bf_insert f (Some bytes) =
       Inr (f\<lparr>m_bit_array := arr', m_inserted_count := m_inserted_count f + 1\<rparr>)"
    "length arr' = length (m_bit_array f)"
    "\<forall>n. stored_bit arr' n \<longleftrightarrow> stored_bit (m_bit_array f) n \<or> n \<in> unat ` set hs"
    using bf_insert_wf [OF assms ne] by blast
  have "nonempty_calls [d] = 1"
    using d ne by (simp add: nonempty_calls_def)
  then show ?thesis
    using ins(3,4,5) d by (intro exI [of _ arr']) simp
qed

lemma nonempty_calls_Cons: "nonempty_calls (d # ds) = nonempty_calls [d] + nonempty_calls ds"
  by (simp add: nonempty_calls_def)

lemma insert_all_wf:
  assumes "well_formed f"
  shows "\<exists>arr'. insert_all f ds =
             Inr (f\<lparr>m_bit_array := arr',
                    m_inserted_count := m_inserted_count f + of_nat (nonempty_calls ds)\<rparr>) \<and>
           length arr' = length (m_bit_array f) \<and>
           (\<forall>n. stored_bit (m_bit_array f) n \<longrightarrow> stored_bit arr' n)"
  using assms
proof (induction ds arbitrary: f)
  case Nil
  have "insert_all f [] =
      Inr (f\<lparr>m_bit_array := m_bit_array f,
             m_inserted_count := m_inserted_count f + of_nat (nonempty_calls [])\<rparr>)"
    by (simp add: nonempty_calls_def)
  then show ?case
    by (intro exI [of _ "m_bit_array f"]) simp
next
  case (Cons d ds)
  obtain arr1 where one:
    "bf_insert f d =
       Inr (f\<lparr>m_bit_array := arr1,
              m_inserted_count := m_inserted_count f + of_nat (nonempty_calls [d])\<rparr>)"
    "length arr1 = length (m_bit_array f)"
    "\<forall>n. stored_bit (m_bit_array f) n \<longrightarrow> stored_bit arr1 n"
    using bf_insert_any [OF Cons.prems, of d] by blast
  define f1 where
    "f1 = f\<lparr>m_bit_array := arr1,
            m_inserted_count := m_inserted_count f + of_nat (nonempty_calls [d])\<rparr>"
  have wf1: "well_formed f1"
    using Cons.prems one(2) by (simp add: well_formed_def f1_def)
  obtain arr' where rest:
    "insert_all f1 ds =
       Inr (f1\<lparr>m_bit_array := arr',
               m_inserted_count := m_inserted_count f1 + of_nat (nonempty_calls ds)\<rparr>)"
    "length arr' = length (m_bit_array f1)"
    "\<forall>n. stored_bit (m_bit_array f1) n \<longrightarrow> stored_bit arr' n"
    using Cons.IH [OF wf1] by blast
  have a: "insert_all f (d # ds) =
      Inr (f\<lparr>m_bit_array := arr',
             m_inserted_count := m_inserted_count f + of_nat (nonempty_calls (d # ds))\<rparr>)"
    using one(1) rest(1) by (simp add: f1_def nonempty_calls_Cons [of d ds] add.assoc)
  have b: "length arr' = length (m_bit_array f)"
    using rest(2) one(2) by (simp add: f1_def)
  have c: "\<forall>n. stored_bit (m_bit_array f) n \<longrightarrow> stored_bit arr' n"
    using rest(3) one(3) by (simp add: f1_def)
  show ?case
    by (rule exI [of _ arr']) (intro conjI a b c)
qed

lemma contains_wf:
  assumes "well_formed f" and "bytes \<noteq> []"
    and "get_all_hashes (m_hasher f) bytes (m_hash_count f) = Inr hs"
    and "\<forall>h \<in> set hs. h < m_bit_array_size f"
  shows "contains f (Some bytes) = Inr (\<forall>h \<in> set hs. stored_bit (m_bit_array f) (unat h))"
  using assms(2,3) all_bits_set_wf [OF assms(1,4)] by (simp add: contains_def)

section \<open>Counting the bits of the array\<close>

lemma stored_bits_block:
  assumes "e \<le> 8"
  shows "{q. q < 8 * n + e \<and> stored_bit arr q} =
         {q. q < 8 * n \<and> stored_bit arr q} \<union> (\<lambda>i. 8 * n + i) ` {i. i < e \<and> bit (arr ! n) i}"
proof (rule set_eqI)
  fix q
  show "q \<in> {q. q < 8 * n + e \<and> stored_bit arr q} \<longleftrightarrow>
        q \<in> {q. q < 8 * n \<and> stored_bit arr q} \<union> (\<lambda>i. 8 * n + i) ` {i. i < e \<and> bit (arr ! n) i}"
  proof (cases "q < 8 * n")
    case True
    then have "q \<notin> (\<lambda>i. 8 * n + i) ` {i. i < e \<and> bit (arr ! n) i}"
      by auto
    then show ?thesis
      using True by simp
  next
    case False
    define i where "i = q - 8 * n"
    have q: "q = 8 * n + i"
      using False by (simp add: i_def)
    show ?thesis
    proof (cases "i < e")
      case True
      then have "i < 8"
        using assms by simp
      then have "q div 8 = n" "q mod 8 = i"
        by (simp_all add: q)
      then have "stored_bit arr q \<longleftrightarrow> bit (arr ! n) i"
        by (simp add: stored_bit_def)
      then show ?thesis
        using True False q by auto
    next
      case ge: False
      then have "q \<notin> (\<lambda>i. 8 * n + i) ` {i. i < e \<and> bit (arr ! n) i}"
        using q by auto
      then show ?thesis
        using ge False q by simp
    qed
  qed
qed

lemma finite_stored_bits: "finite {q. q < n \<and> stored_bit arr q}"
  by simp

lemma card_stored_bits_block:
  assumes "e \<le> 8"
  shows "card {q. q < 8 * n + e \<and> stored_bit arr q} =
         card {q. q < 8 * n \<and> stored_bit arr q} + card {i. i < e \<and> bit (arr ! n) i}"
proof -
  have disj: "{q. q < 8 * n \<and> stored_bit arr q} \<inter>
              (\<lambda>i. 8 * n + i) ` {i. i < e \<and> bit (arr ! n) i} = {}"
    by auto
  have inj: "inj_on (\<lambda>i. 8 * n + i) {i. i < e \<and> bit (arr ! n) i}"
    by (simp add: inj_on_def)
  have "card {q. q < 8 * n + e \<and> stored_bit arr q} =
        card {q. q < 8 * n \<and> stored_bit arr q} +
        card ((\<lambda>i. 8 * n + i) ` {i. i < e \<and> bit (arr ! n) i})"
    unfolding stored_bits_block [OF assms]
    by (rule card_Un_disjoint) (simp_all add: disj)
  then show ?thesis
    by (simp add: card_image [OF inj])
qed

lemma bits_below_8: "{i. i < 8 \<and> bit b i} = {i. bit b i}" for b :: u8
  using bit_imp_le_length [of b] by auto

lemma card_stored_bits_bytes:
  "card {q. q < 8 * n \<and> stored_bit arr q} = (\<Sum>j = 0..<n. card {i. bit (arr ! j) i})"
proof (induction n)
  case 0
  then show ?case by simp
next
  case (Suc n)
  have "card {q. q < 8 * Suc n \<and> stored_bit arr q} =
        card {q. q < 8 * n + 8 \<and> stored_bit arr q}"
    by (simp add: add.commute)
  also have "\<dots> = card {q. q < 8 * n \<and> stored_bit arr q} + card {i. i < 8 \<and> bit (arr ! n) i}"
    by (rule card_stored_bits_block) simp
  finally show ?case
    using Suc by (simp add: bits_below_8)
qed

lemma bits_masked: "e < 8 \<Longrightarrow> {i. bit (b AND (push_bit e 1 - 1)) i} = {i. i < e \<and> bit b i}"
  for b :: u8
proof -
  assume "e < 8"
  have "push_bit e 1 - 1 = (mask e :: u8)"
    by (simp add: mask_eq_exp_minus_1)
  then show ?thesis
    using bit_imp_le_length [of b] by (auto simp: bit_and_iff bit_mask_iff)
qed

lemma count_full_bytes_sum:
  assumes "unat full \<le> length arr" and "i \<le> full"
  shows "count_full_bytes arr full i c =
           Inr (c + of_nat (\<Sum>j = unat i..<unat full. card {b. bit (arr ! j) b}))"
  using assms
proof (induction arr full i c rule: count_full_bytes.induct)
  case (1 bit_array full_bytes i count)
  show ?case
  proof (cases "i < full_bytes")
    case True
    have lt: "unat i < unat full_bytes"
      using True by (simp add: word_less_nat_alt)
    have in_range: "unat i < length bit_array"
      using lt "1.prems"(1) by simp
    have s: "unat (i + 1) = Suc (unat i)"
      using True by (rule unat_succ_less)
    have le: "i + 1 \<le> full_bytes"
      using True by unat_arith
    have "count_full_bytes bit_array full_bytes i count =
          count_full_bytes bit_array full_bytes (i + 1) (count_byte (bit_array ! unat i) count)"
      using True in_range by (subst count_full_bytes.simps) simp
    also have "\<dots> = Inr (count_byte (bit_array ! unat i) count +
                 of_nat (\<Sum>j = unat (i + 1)..<unat full_bytes. card {b. bit (bit_array ! j) b}))"
      using "1.IH" [OF True in_range "1.prems"(1) le] .
    also have "\<dots> = Inr (count +
                 of_nat (\<Sum>j = unat i..<unat full_bytes. card {b. bit (bit_array ! j) b}))"
      using lt by (simp add: count_byte_card s sum.atLeast_Suc_lessThan add.assoc)
    finally show ?thesis .
  next
    case False
    then have "i = full_bytes"
      using "1.prems"(2) by simp
    then show ?thesis
      by (subst count_full_bytes.simps) simp
  qed
qed

lemma count_set_bits_nat:
  assumes "well_formed f"
  shows "count_set_bits f =
           Inr (of_nat (card {q. q < unat (m_bit_array_size f) \<and> stored_bit (m_bit_array f) q}))"
proof -
  define m where "m = m_bit_array_size f"
  define arr where "arr = m_bit_array f"
  define n where "n = unat m div 8"
  define e where "e = unat m mod 8"
  have len: "length arr = (unat m + 7) div 8"
    using assms by (simp add: well_formed_def m_def arr_def)
  have full: "unat (m div 8) = n"
    by (simp add: n_def unat_div8)
  have extra: "unat (m mod 8) = e"
    by (simp add: e_def unat_mod8)
  have split: "unat m = 8 * n + e"
    by (simp add: n_def e_def)
  have e8: "e < 8"
    by (simp add: e_def)
  have "n \<le> length arr"
    using len split by simp
  then have loop: "count_full_bytes arr (m div 8) 0 0 =
      Inr (of_nat (card {q. q < 8 * n \<and> stored_bit arr q}))"
    using count_full_bytes_sum [of "m div 8" arr 0 0]
    by (simp add: full card_stored_bits_bytes)
  show ?thesis
  proof (cases "e = 0")
    case True
    then have "\<not> m mod 8 > 0"
      using extra by (simp add: word_less_nat_alt)
    then have "count_set_bits f = Inr (of_nat (card {q. q < 8 * n \<and> stored_bit arr q}))"
      using loop by (simp add: count_set_bits_def m_def arr_def Let_def)
    then show ?thesis
      using True split by (simp add: m_def arr_def)
  next
    case False
    then have pos: "m mod 8 > 0"
      using extra by (simp add: word_less_nat_alt)
    have in_range: "unat (m div 8) < length arr"
      using False len split full by simp
    have "count_set_bits f =
          Inr (count_byte (arr ! n AND (push_bit e 1 - 1))
                 (of_nat (card {q. q < 8 * n \<and> stored_bit arr q})))"
      using loop pos in_range
      by (simp add: count_set_bits_def m_def [symmetric] arr_def [symmetric] Let_def full extra
          del: push_bit_of_1)
    also have "\<dots> = Inr (of_nat (card {q. q < 8 * n \<and> stored_bit arr q} +
                              card {i. i < e \<and> bit (arr ! n) i}))"
      by (simp add: count_byte_card bits_masked [OF e8] del: push_bit_of_1)
    also have "\<dots> = Inr (of_nat (card {q. q < 8 * n + e \<and> stored_bit arr q}))"
      using e8 by (simp add: card_stored_bits_block)
    finally show ?thesis
      using split by (simp add: m_def arr_def)
  qed
qed

lemma unat_u64_bound: "unat w < 2 ^ 64" for w :: u64
  by (rule order_less_le_trans [OF unsigned_less]) simp

lemma unat_of_nat_u64: "q < 2 ^ 64 \<Longrightarrow> unat (of_nat q :: u64) = q"
  by (simp add: unat_of_nat)

lemma card_stored_bits_le: "card {q. q < n \<and> stored_bit arr q} \<le> n"
proof -
  have "card {q. q < n \<and> stored_bit arr q} \<le> card {q. q < n}"
    by (rule card_mono) auto
  then show ?thesis by simp
qed

lemma set_positions_unat:
  assumes "well_formed f"
  shows "unat ` {p. p < m_bit_array_size f \<and> get_bit f p = Inr True} =
         {q. q < unat (m_bit_array_size f) \<and> stored_bit (m_bit_array f) q}"
proof (rule set_eqI)
  fix q
  show "q \<in> unat ` {p. p < m_bit_array_size f \<and> get_bit f p = Inr True} \<longleftrightarrow>
        q \<in> {q. q < unat (m_bit_array_size f) \<and> stored_bit (m_bit_array f) q}"
  proof
    assume "q \<in> unat ` {p. p < m_bit_array_size f \<and> get_bit f p = Inr True}"
    then obtain p where p: "q = unat p" "p < m_bit_array_size f" "get_bit f p = Inr True"
      by auto
    then show "q \<in> {q. q < unat (m_bit_array_size f) \<and> stored_bit (m_bit_array f) q}"
      using get_bit_wf [OF assms p(2)] by (simp add: word_less_nat_alt)
  next
    assume "q \<in> {q. q < unat (m_bit_array_size f) \<and> stored_bit (m_bit_array f) q}"
    then have q: "q < unat (m_bit_array_size f)" "stored_bit (m_bit_array f) q"
      by simp_all
    define p :: u64 where "p = of_nat q"
    have "q < 2 ^ 64"
      using q(1) unat_u64_bound [of "m_bit_array_size f"] by simp
    then have up: "unat p = q"
      by (simp add: p_def unat_of_nat_u64)
    then have lt: "p < m_bit_array_size f"
      using q(1) by (simp add: word_less_nat_alt)
    have "get_bit f p = Inr True"
      using get_bit_wf [OF assms lt] q(2) up by simp
    then show "q \<in> unat ` {p. p < m_bit_array_size f \<and> get_bit f p = Inr True}"
      using lt up by force
  qed
qed

lemma card_set_positions:
  assumes "well_formed f"
  shows "card {p. p < m_bit_array_size f \<and> get_bit f p = Inr True} =
         card {q. q < unat (m_bit_array_size f) \<and> stored_bit (m_bit_array f) q}"
proof -
  have "inj_on (unat :: u64 \<Rightarrow> nat) {p. p < m_bit_array_size f \<and> get_bit f p = Inr True}"
    by (rule inj_on_subset [OF inj_unsigned]) simp
  then show ?thesis
    using card_image [of unat "{p. p < m_bit_array_size f \<and> get_bit f p = Inr True}"]
      set_positions_unat [OF assms] by simp
qed

lemma count_set_bits_wf:
  assumes "well_formed f"
  shows "\<exists>c. count_set_bits f = Inr c \<and>
              unat c = card {p. p < m_bit_array_size f \<and> get_bit f p = Inr True}"
proof -
  define k where "k = card {q. q < unat (m_bit_array_size f) \<and> stored_bit (m_bit_array f) q}"
  have "k \<le> unat (m_bit_array_size f)"
    unfolding k_def by (rule card_stored_bits_le)
  then have "k < 2 ^ 64"
    using unat_u64_bound [of "m_bit_array_size f"] by simp
  then have "unat (of_nat k :: u64) = k"
    by (simp add: unat_of_nat_u64)
  then show ?thesis
    using count_set_bits_nat [OF assms] card_set_positions [OF assms] by (simp add: k_def)
qed

section \<open>No false negatives\<close>

text \<open>
  Claim C1. Let a filter satisfy the data model and let \<open>bytes\<close> be a non-empty byte
  sequence. Then \<^verbatim>\<open>insert(bytes)\<close> returns, and after it and after any further run of
  \<^verbatim>\<open>insert\<close> calls (with any arguments, and no \<^verbatim>\<open>clear\<close>), \<^verbatim>\<open>contains(bytes)\<close> returns true.
\<close>

theorem no_false_negatives:
  assumes "well_formed f" and "bytes \<noteq> []"
  shows "\<exists>f1. bf_insert f (Some bytes) = Inr f1 \<and>
           (\<forall>ds. \<exists>f2. insert_all f1 ds = Inr f2 \<and> contains f2 (Some bytes) = Inr True)"
proof -
  obtain hs arr1 where ins:
    "get_all_hashes (m_hasher f) bytes (m_hash_count f) = Inr hs"
    "\<forall>h \<in> set hs. h < m_bit_array_size f"
    "bf_insert f (Some bytes) =
       Inr (f\<lparr>m_bit_array := arr1, m_inserted_count := m_inserted_count f + 1\<rparr>)"
    "length arr1 = length (m_bit_array f)"
    "\<forall>n. stored_bit arr1 n \<longleftrightarrow> stored_bit (m_bit_array f) n \<or> n \<in> unat ` set hs"
    using bf_insert_wf [OF assms] by blast
  define f1 where
    "f1 = f\<lparr>m_bit_array := arr1, m_inserted_count := m_inserted_count f + 1\<rparr>"
  have wf1: "well_formed f1"
    using assms(1) ins(4) by (simp add: well_formed_def f1_def)
  have later: "\<exists>f2. insert_all f1 ds = Inr f2 \<and> contains f2 (Some bytes) = Inr True" for ds
  proof -
    obtain arr2 where run:
      "insert_all f1 ds =
         Inr (f1\<lparr>m_bit_array := arr2,
                 m_inserted_count := m_inserted_count f1 + of_nat (nonempty_calls ds)\<rparr>)"
      "length arr2 = length (m_bit_array f1)"
      "\<forall>n. stored_bit (m_bit_array f1) n \<longrightarrow> stored_bit arr2 n"
      using insert_all_wf [OF wf1, of ds] by blast
    define f2 where
      "f2 = f1\<lparr>m_bit_array := arr2,
               m_inserted_count := m_inserted_count f1 + of_nat (nonempty_calls ds)\<rparr>"
    have wf2: "well_formed f2"
      using wf1 run(2) by (simp add: well_formed_def f2_def)
    have hs2: "get_all_hashes (m_hasher f2) bytes (m_hash_count f2) = Inr hs"
      using ins(1) by (simp add: f2_def f1_def)
    have lt2: "\<forall>h \<in> set hs. h < m_bit_array_size f2"
      using ins(2) by (simp add: f2_def f1_def)
    have "\<forall>h \<in> set hs. stored_bit (m_bit_array f2) (unat h)"
      using run(3) ins(5) by (simp add: f2_def f1_def)
    then have "contains f2 (Some bytes) = Inr True"
      using contains_wf [OF wf2 assms(2) hs2 lt2] by simp
    then show ?thesis
      using run(1) by (simp add: f2_def)
  qed
  show ?thesis
    using ins(3) later by (simp add: f1_def)
qed

theorem no_false_negatives_witness:
  "well_formed (clear full_filter) \<and> [0x61 :: u8] \<noteq> [] \<and>
   (\<exists>f1 f2. bf_insert (clear full_filter) (Some [0x61]) = Inr f1 \<and>
      insert_all f1 [Some [0x62, 0x63], None, Some [0x61]] = Inr f2 \<and>
      contains f2 (Some [0x61]) = Inr True)"
proof -
  have wf: "well_formed (clear full_filter)"
    by (simp add: well_formed_def clear_def full_filter_def new_DoubleHasher_def)
  have ne: "[0x61 :: u8] \<noteq> []"
    by simp
  show ?thesis
    using no_false_negatives [OF wf ne] wf by blast
qed

section \<open>The count of set bits\<close>

lemma well_formed_bit_array:
  "well_formed f \<Longrightarrow> length arr' = length (m_bit_array f) \<Longrightarrow> well_formed (f\<lparr>m_bit_array := arr'\<rparr>)"
  by (simp add: well_formed_def)

lemma full_filter_count: "count_set_bits full_filter = Inr 10"
  by (simp add: count_set_bits_def full_filter_def count_full_bytes.simps count_byte.simps)

lemma full_filter_wf: "well_formed full_filter"
  by (simp add: well_formed_def full_filter_def new_DoubleHasher_def)

text \<open>
  Claim C7. For a filter that satisfies the data model, \<^verbatim>\<open>count_set_bits()\<close> returns, and
  its value is the number of positions \<open>p < m\<close> at which \<^verbatim>\<open>get_bit\<close> reads a set bit. What
  the bytes hold at the positions from \<open>m\<close> on has no effect: a filter whose byte array
  differs from it only there has the same count.
\<close>

theorem count_set_bits_exact:
  assumes "well_formed f"
  shows "(\<exists>c. count_set_bits f = Inr c \<and>
              unat c = card {p. p < m_bit_array_size f \<and> get_bit f p = Inr True}) \<and>
         (\<forall>arr'. length arr' = length (m_bit_array f) \<and>
                 (\<forall>q < unat (m_bit_array_size f).
                     stored_bit arr' q = stored_bit (m_bit_array f) q) \<longrightarrow>
                 count_set_bits (f\<lparr>m_bit_array := arr'\<rparr>) = count_set_bits f)"
proof (intro conjI allI impI)
  show "\<exists>c. count_set_bits f = Inr c \<and>
             unat c = card {p. p < m_bit_array_size f \<and> get_bit f p = Inr True}"
    by (rule count_set_bits_wf [OF assms])
next
  fix arr'
  assume a: "length arr' = length (m_bit_array f) \<and>
             (\<forall>q < unat (m_bit_array_size f). stored_bit arr' q = stored_bit (m_bit_array f) q)"
  then have wf': "well_formed (f\<lparr>m_bit_array := arr'\<rparr>)"
    using assms by (simp add: well_formed_bit_array)
  have "{q. q < unat (m_bit_array_size f) \<and> stored_bit arr' q} =
        {q. q < unat (m_bit_array_size f) \<and> stored_bit (m_bit_array f) q}"
    using a by auto
  then show "count_set_bits (f\<lparr>m_bit_array := arr'\<rparr>) = count_set_bits f"
    using count_set_bits_nat [OF wf'] count_set_bits_nat [OF assms] by simp
qed

theorem count_set_bits_exact_witness:
  "well_formed full_filter \<and> length (m_bit_array full_filter) = 2 \<and>
   m_bit_array full_filter = [0xFF, 0xFF] \<and>
   count_set_bits full_filter = Inr 10 \<and>
   card {p. p < m_bit_array_size full_filter \<and> get_bit full_filter p = Inr True} = 10 \<and>
   count_set_bits (full_filter\<lparr>m_bit_array := [0xFF, 0x03]\<rparr>) = Inr 10"
proof -
  have same: "\<forall>q < unat (m_bit_array_size full_filter).
                stored_bit [0xFF, 0x03] q = stored_bit (m_bit_array full_filter) q"
  proof (intro allI impI)
    fix q :: nat
    assume "q < unat (m_bit_array_size full_filter)"
    then have "q < 10"
      by (simp add: full_filter_def)
    then have "q \<in> {0, 1, 2, 3, 4, 5, 6, 7, 8, 9}"
      by auto
    then show "stored_bit [0xFF, 0x03] q = stored_bit (m_bit_array full_filter) q"
      by (auto simp: stored_bit_def full_filter_def)
  qed
  have len: "length [0xFF, 0x03 :: u8] = length (m_bit_array full_filter)"
    by (simp add: full_filter_def)
  note exact = count_set_bits_exact [OF full_filter_wf]
  have "count_set_bits (full_filter\<lparr>m_bit_array := [0xFF, 0x03]\<rparr>) = count_set_bits full_filter"
    using exact len same by blast
  moreover have "card {p. p < m_bit_array_size full_filter \<and> get_bit full_filter p = Inr True} = 10"
    using exact full_filter_count by auto
  ultimately show ?thesis
    using full_filter_wf full_filter_count by (simp add: full_filter_def)
qed

section \<open>Monotonic fill\<close>

lemma get_bit_True_iff:
  assumes "well_formed f"
  shows "get_bit f p = Inr True \<longleftrightarrow> p < m_bit_array_size f \<and> stored_bit (m_bit_array f) (unat p)"
proof (cases "p < m_bit_array_size f")
  case True
  then show ?thesis
    using get_bit_wf [OF assms True] by simp
next
  case False
  then have "m_bit_array_size f \<le> p"
    by simp
  then show ?thesis
    using False by (simp add: get_bit_def)
qed

lemma insert_all_monotone:
  assumes "well_formed f"
  shows "\<exists>f' c c'. insert_all f ds = Inr f' \<and> well_formed f' \<and>
           (\<forall>p. get_bit f p = Inr True \<longrightarrow> get_bit f' p = Inr True) \<and>
           count_set_bits f = Inr c \<and> count_set_bits f' = Inr c' \<and> c \<le> c'"
proof -
  obtain arr' where run:
    "insert_all f ds =
       Inr (f\<lparr>m_bit_array := arr',
              m_inserted_count := m_inserted_count f + of_nat (nonempty_calls ds)\<rparr>)"
    "length arr' = length (m_bit_array f)"
    "\<forall>n. stored_bit (m_bit_array f) n \<longrightarrow> stored_bit arr' n"
    using insert_all_wf [OF assms, of ds] by blast
  define f' where
    "f' = f\<lparr>m_bit_array := arr',
            m_inserted_count := m_inserted_count f + of_nat (nonempty_calls ds)\<rparr>"
  have wf': "well_formed f'"
    using assms run(2) by (simp add: well_formed_def f'_def)
  have keep: "get_bit f' p = Inr True" if "get_bit f p = Inr True" for p
    using that run(3) get_bit_True_iff [OF assms, of p] get_bit_True_iff [OF wf', of p]
    by (simp add: f'_def)
  obtain c where c: "count_set_bits f = Inr c"
    "unat c = card {p. p < m_bit_array_size f \<and> get_bit f p = Inr True}"
    using count_set_bits_wf [OF assms] by blast
  obtain c' where c': "count_set_bits f' = Inr c'"
    "unat c' = card {p. p < m_bit_array_size f' \<and> get_bit f' p = Inr True}"
    using count_set_bits_wf [OF wf'] by blast
  have "{p. p < m_bit_array_size f \<and> get_bit f p = Inr True} \<subseteq>
        {p. p < m_bit_array_size f' \<and> get_bit f' p = Inr True}"
    using keep by (auto simp: f'_def)
  then have "unat c \<le> unat c'"
    unfolding c(2) c'(2) by (rule card_mono [rotated]) simp
  then have le: "c \<le> c'"
    by (simp add: word_le_nat_alt)
  have k: "\<forall>p. get_bit f p = Inr True \<longrightarrow> get_bit f' p = Inr True"
    using keep by simp
  have r: "insert_all f ds = Inr f'"
    using run(1) by (simp add: f'_def)
  show ?thesis
    by (rule exI [of _ f'], rule exI [of _ c], rule exI [of _ c']) (intro conjI r wf' k c(1) c'(1) le)
qed

lemma insert_all_single: "insert_all f [d] = bf_insert f d"
  by (cases "bf_insert f d") simp_all

text \<open>
  Claim C9. For a filter that satisfies the data model, \<^verbatim>\<open>insert\<close> with any argument
  returns, every position at which \<^verbatim>\<open>get_bit\<close> read a set bit before the call reads a set
  bit after it, and \<^verbatim>\<open>count_set_bits()\<close> after the call is at least its value before. The
  same holds across any run of \<^verbatim>\<open>insert\<close> calls.
\<close>

theorem monotonic_fill:
  assumes "well_formed f"
  shows "(\<exists>f' c c'. bf_insert f d = Inr f' \<and>
            (\<forall>p. get_bit f p = Inr True \<longrightarrow> get_bit f' p = Inr True) \<and>
            count_set_bits f = Inr c \<and> count_set_bits f' = Inr c' \<and> c \<le> c') \<and>
         (\<exists>f' c c'. insert_all f ds = Inr f' \<and>
            (\<forall>p. get_bit f p = Inr True \<longrightarrow> get_bit f' p = Inr True) \<and>
            count_set_bits f = Inr c \<and> count_set_bits f' = Inr c' \<and> c \<le> c')"
proof
  show "\<exists>f' c c'. bf_insert f d = Inr f' \<and>
            (\<forall>p. get_bit f p = Inr True \<longrightarrow> get_bit f' p = Inr True) \<and>
            count_set_bits f = Inr c \<and> count_set_bits f' = Inr c' \<and> c \<le> c'"
    using insert_all_monotone [OF assms, of "[d]"] unfolding insert_all_single by blast
next
  show "\<exists>f' c c'. insert_all f ds = Inr f' \<and>
            (\<forall>p. get_bit f p = Inr True \<longrightarrow> get_bit f' p = Inr True) \<and>
            count_set_bits f = Inr c \<and> count_set_bits f' = Inr c' \<and> c \<le> c'"
    using insert_all_monotone [OF assms, of ds] by blast
qed

theorem monotonic_fill_witness:
  "well_formed full_filter \<and>
   (\<exists>f' c c'. bf_insert full_filter (Some [0x61]) = Inr f' \<and>
      get_bit full_filter 9 = Inr True \<and> get_bit f' 9 = Inr True \<and>
      count_set_bits full_filter = Inr c \<and> count_set_bits f' = Inr c' \<and> c \<le> c') \<and>
   (\<exists>f' c c'. insert_all full_filter [Some [0x61], None, Some [0x62]] = Inr f' \<and>
      get_bit f' 9 = Inr True \<and>
      count_set_bits full_filter = Inr c \<and> count_set_bits f' = Inr c' \<and> c \<le> c')"
proof -
  have nine: "get_bit full_filter 9 = Inr True"
    by (simp add: get_bit_def get_bit_body_def full_filter_def)
  show ?thesis
    using monotonic_fill [OF full_filter_wf, of "Some [0x61]" "[Some [0x61], None, Some [0x62]]"]
      nine full_filter_wf
    by blast
qed

section \<open>clear\<close>

lemma clear_wf: "well_formed f \<Longrightarrow> well_formed (clear f)"
  by (simp add: well_formed_def clear_def)

lemma get_bit_clear:
  assumes "well_formed f"
  shows "get_bit (clear f) p \<noteq> Inr True"
proof (cases "p < m_bit_array_size f")
  case True
  have "unat p div 8 < length (m_bit_array f)"
    by (rule byte_index_in_range [OF assms True])
  then have "\<not> stored_bit (m_bit_array (clear f)) (unat p)"
    by (simp add: stored_bit_def clear_def)
  moreover have "p < m_bit_array_size (clear f)"
    using True by (simp add: clear_def)
  ultimately show ?thesis
    using get_bit_wf [OF clear_wf [OF assms], of p] by simp
next
  case False
  then have "m_bit_array_size (clear f) \<le> p"
    by (simp add: clear_def)
  then show ?thesis
    by (simp add: get_bit_def)
qed

lemma count_set_bits_clear:
  assumes "well_formed f"
  shows "count_set_bits (clear f) = Inr 0"
proof -
  obtain c where c: "count_set_bits (clear f) = Inr c"
    "unat c = card {p. p < m_bit_array_size (clear f) \<and> get_bit (clear f) p = Inr True}"
    using count_set_bits_wf [OF clear_wf [OF assms]] by blast
  have "{p. p < m_bit_array_size (clear f) \<and> get_bit (clear f) p = Inr True} = {}"
    using get_bit_clear [OF assms] by simp
  then have "unat c = 0"
    using c(2) by simp
  then show ?thesis
    using c(1) by (simp add: unat_eq_0)
qed

text \<open>
  Claim C8. \<^verbatim>\<open>clear()\<close> makes every byte of the bit array zero and keeps the number of
  bytes, sets \<^verbatim>\<open>inserted_count\<close> to zero, and leaves the bit-array size, the hash count,
  the capacity, the target rate, the byte count behind \<^verbatim>\<open>memory_usage()\<close> and the hash
  engine as they were; for a filter that satisfies the data model, \<^verbatim>\<open>count_set_bits()\<close>
  returns zero afterwards.
\<close>

theorem clear_resets:
  "m_bit_array (clear f) = replicate (length (m_bit_array f)) 0 \<and>
   bf_size (clear f) = 0 \<and>
   bit_array_size (clear f) = bit_array_size f \<and>
   hash_count (clear f) = hash_count f \<and>
   capacity (clear f) = capacity f \<and>
   false_positive_rate (clear f) = false_positive_rate f \<and>
   memory_usage sizeof_this (clear f) = memory_usage sizeof_this f \<and>
   m_hasher (clear f) = m_hasher f \<and>
   (well_formed f \<longrightarrow> well_formed (clear f) \<and> count_set_bits (clear f) = Inr 0)"
proof -
  have "m_bit_array (clear f) = replicate (length (m_bit_array f)) 0"
    by (simp add: clear_def map_replicate_const)
  then show ?thesis
    using clear_wf [of f] count_set_bits_clear [of f]
    by (simp add: clear_def bf_size_def bit_array_size_def hash_count_def capacity_def
        false_positive_rate_def memory_usage_def)
qed

theorem clear_resets_witness:
  "well_formed full_filter \<and> count_set_bits full_filter = Inr 10 \<and>
   m_bit_array (clear full_filter) = [0, 0] \<and>
   bf_size (clear full_filter) = 0 \<and>
   bit_array_size (clear full_filter) = 10 \<and>
   hash_count (clear full_filter) = 3 \<and>
   capacity (clear full_filter) = 5 \<and>
   false_positive_rate (clear full_filter) = Val (1 / 100) \<and>
   memory_usage 96 (clear full_filter) = 98 \<and>
   count_set_bits (clear full_filter) = Inr 0"
  using clear_resets [of full_filter 96] full_filter_wf full_filter_count
  by (simp add: full_filter_def bit_array_size_def hash_count_def capacity_def
      false_positive_rate_def memory_usage_def)

section \<open>The insertion counter\<close>

text \<open>
  Claim C3. For a filter that satisfies the data model and a non-empty byte sequence,
  \<^verbatim>\<open>insert\<close> returns with \<^verbatim>\<open>size()\<close> one more than before, also when the same sequence is
  inserted a second time, whatever the bits were. After a run of \<^verbatim>\<open>insert\<close> calls \<^verbatim>\<open>size()\<close>
  has grown by the number of calls that passed a non-empty sequence, counted in the 64
  bits of the counter; started from zero (a new or a cleared filter) it is that number
  as long as the number is below \<open>2\<^sup>6\<^sup>4\<close>.
\<close>

theorem insert_counts_calls:
  assumes "well_formed f" and "bytes \<noteq> []"
  shows "(\<exists>f1. bf_insert f (Some bytes) = Inr f1 \<and> bf_size f1 = bf_size f + 1 \<and>
            (\<exists>f2. bf_insert f1 (Some bytes) = Inr f2 \<and> bf_size f2 = bf_size f1 + 1)) \<and>
         (\<exists>f'. insert_all f ds = Inr f' \<and>
            bf_size f' = bf_size f + of_nat (nonempty_calls ds) \<and>
            (bf_size f = 0 \<and> nonempty_calls ds < 2 ^ 64 \<longrightarrow>
               unat (bf_size f') = nonempty_calls ds))"
proof
  obtain hs arr1 where one:
    "get_all_hashes (m_hasher f) bytes (m_hash_count f) = Inr hs"
    "\<forall>h \<in> set hs. h < m_bit_array_size f"
    "bf_insert f (Some bytes) =
       Inr (f\<lparr>m_bit_array := arr1, m_inserted_count := m_inserted_count f + 1\<rparr>)"
    "length arr1 = length (m_bit_array f)"
    "\<forall>n. stored_bit arr1 n \<longleftrightarrow> stored_bit (m_bit_array f) n \<or> n \<in> unat ` set hs"
    using bf_insert_wf [OF assms] by blast
  define f1 where "f1 = f\<lparr>m_bit_array := arr1, m_inserted_count := m_inserted_count f + 1\<rparr>"
  have wf1: "well_formed f1"
    using assms(1) one(4) by (simp add: well_formed_def f1_def)
  obtain hs2 arr2 where two:
    "get_all_hashes (m_hasher f1) bytes (m_hash_count f1) = Inr hs2"
    "\<forall>h \<in> set hs2. h < m_bit_array_size f1"
    "bf_insert f1 (Some bytes) =
       Inr (f1\<lparr>m_bit_array := arr2, m_inserted_count := m_inserted_count f1 + 1\<rparr>)"
    "length arr2 = length (m_bit_array f1)"
    "\<forall>n. stored_bit arr2 n \<longleftrightarrow> stored_bit (m_bit_array f1) n \<or> n \<in> unat ` set hs2"
    using bf_insert_wf [OF wf1 assms(2)] by blast
  show "\<exists>f1. bf_insert f (Some bytes) = Inr f1 \<and> bf_size f1 = bf_size f + 1 \<and>
          (\<exists>f2. bf_insert f1 (Some bytes) = Inr f2 \<and> bf_size f2 = bf_size f1 + 1)"
    using one(3) two(3) by (simp add: f1_def bf_size_def)
next
  obtain arr' where run:
    "insert_all f ds =
       Inr (f\<lparr>m_bit_array := arr',
              m_inserted_count := m_inserted_count f + of_nat (nonempty_calls ds)\<rparr>)"
    "length arr' = length (m_bit_array f)"
    "\<forall>n. stored_bit (m_bit_array f) n \<longrightarrow> stored_bit arr' n"
    using insert_all_wf [OF assms(1), of ds] by blast
  show "\<exists>f'. insert_all f ds = Inr f' \<and>
          bf_size f' = bf_size f + of_nat (nonempty_calls ds) \<and>
          (bf_size f = 0 \<and> nonempty_calls ds < 2 ^ 64 \<longrightarrow>
             unat (bf_size f') = nonempty_calls ds)"
    using run(1) by (simp add: bf_size_def unat_of_nat_u64)
qed

theorem insert_counts_calls_witness:
  "well_formed (clear full_filter) \<and> [0x61 :: u8] \<noteq> [] \<and> bf_size (clear full_filter) = 0 \<and>
   nonempty_calls [Some [0x61], Some [], Some [0x61], None, Some [0x62]] = 3 \<and>
   (\<exists>f1 f2. bf_insert (clear full_filter) (Some [0x61]) = Inr f1 \<and> bf_size f1 = 1 \<and>
      bf_insert f1 (Some [0x61]) = Inr f2 \<and> bf_size f2 = 2) \<and>
   (\<exists>f'. insert_all (clear full_filter) [Some [0x61], Some [], Some [0x61], None, Some [0x62]]
            = Inr f' \<and> bf_size f' = 3 \<and> unat (bf_size f') = 3)"
proof -
  have wf: "well_formed (clear full_filter)"
    by (rule clear_wf [OF full_filter_wf])
  have ne: "[0x61 :: u8] \<noteq> []"
    by simp
  have z: "bf_size (clear full_filter) = 0"
    by (simp add: bf_size_def clear_def)
  have n: "nonempty_calls [Some [0x61 :: u8], Some [], Some [0x61], None, Some [0x62]] = 3"
    by (simp add: nonempty_calls_def)
  show ?thesis
    using insert_counts_calls [OF wf ne, of "[Some [0x61], Some [], Some [0x61], None, Some [0x62]]"]
      wf z n
    by auto
qed

section \<open>Empty and absent input\<close>

text \<open>
  Claim C4. For every filter state, \<^verbatim>\<open>insert\<close> with a null pointer or with an empty byte
  sequence returns the state as it was, so \<^verbatim>\<open>size()\<close>, the bit array and
  \<^verbatim>\<open>count_set_bits()\<close> are what they were, and \<^verbatim>\<open>contains\<close> with such an argument returns
  false.
\<close>

theorem empty_input_noop:
  "bf_insert f None = Inr f \<and> bf_insert f (Some []) = Inr f \<and>
   contains f None = Inr False \<and> contains f (Some []) = Inr False \<and>
   (case bf_insert f None of
      Inl e \<Rightarrow> False
    | Inr f' \<Rightarrow> bf_size f' = bf_size f \<and> m_bit_array f' = m_bit_array f \<and>
               count_set_bits f' = count_set_bits f) \<and>
   (case bf_insert f (Some []) of
      Inl e \<Rightarrow> False
    | Inr f' \<Rightarrow> bf_size f' = bf_size f \<and> m_bit_array f' = m_bit_array f \<and>
               count_set_bits f' = count_set_bits f)"
  by (simp add: bf_insert_def contains_def)

theorem empty_input_noop_witness:
  "bf_insert full_filter None = Inr full_filter \<and>
   bf_insert full_filter (Some []) = Inr full_filter \<and>
   contains full_filter None = Inr False \<and> contains full_filter (Some []) = Inr False \<and>
   count_set_bits full_filter = Inr 10"
  using empty_input_noop [of full_filter] full_filter_count by simp

section \<open>The probe indices of a call\<close>

lemma probe_unat:
  "unat ((h1 + of_nat i * h2) mod m) = ((unat h1 + i * unat h2) mod 2 ^ 64) mod unat m"
  for h1 h2 m :: u64
  by (simp add: unat_mod unat_word_ariths unat_of_nat mod_simps)

lemma get_all_hashes_nth:
  assumes "dh_bit_array_size hs \<noteq> 0"
  shows "\<exists>xs. get_all_hashes hs bytes k = Inr xs \<and> length xs = unat k \<and>
           (\<forall>i < unat k.
              xs ! i = (MurmurHash3 (dh_hash1 hs) bytes +
                        of_nat i * make_odd (MurmurHash3 (dh_hash2 hs) bytes))
                       mod dh_bit_array_size hs)"
proof -
  define xs where
    "xs = fill_hashes (dh_bit_array_size hs) (MurmurHash3 (dh_hash1 hs) bytes)
            (make_odd (MurmurHash3 (dh_hash2 hs) bytes)) k 0 (replicate (unat k) 0)"
  have eq: "get_all_hashes hs bytes k = Inr xs"
    using assms by (simp add: get_all_hashes_def xs_def Let_def)
  have len: "length xs = unat k"
    by (simp add: xs_def fill_hashes_length)
  have nth: "\<forall>i < unat k.
              xs ! i = (MurmurHash3 (dh_hash1 hs) bytes +
                        of_nat i * make_odd (MurmurHash3 (dh_hash2 hs) bytes))
                       mod dh_bit_array_size hs"
    by (simp add: xs_def fill_hashes_nth)
  show ?thesis
    by (rule exI [of _ xs]) (intro conjI eq len nth)
qed

text \<open>
  Claim C5. Let the engine reduce modulo \<open>m \<noteq> 0\<close>. For every byte sequence and every \<open>k\<close>
  (also \<open>k = 0\<close>), \<^verbatim>\<open>get_all_hashes\<close> returns exactly \<open>k\<close> indices. With \<open>h1\<close> the first base
  hash of the input and \<open>h2\<close> the second one made odd (which is \<open>h2 OR 1\<close>), the index
  number \<open>i\<close> is \<open>(h1 + i * h2) mod m\<close>, where the sum and the product are those of 64-bit
  unsigned integers: as a natural number the index is
  \<open>((h1 + i * h2) mod 2\<^sup>6\<^sup>4) mod m\<close>. The indices are a function of the engine, the
  input and \<open>k\<close> alone, so two calls with the same three return the same indices.
\<close>

theorem probe_indices:
  assumes "dh_bit_array_size hs \<noteq> 0"
  shows "\<exists>xs h1 h2.
           h1 = MurmurHash3 (dh_hash1 hs) bytes \<and>
           h2 = make_odd (MurmurHash3 (dh_hash2 hs) bytes) \<and>
           h2 = MurmurHash3 (dh_hash2 hs) bytes OR 1 \<and> odd h2 \<and>
           get_all_hashes hs bytes k = Inr xs \<and> length xs = unat k \<and>
           (\<forall>i < unat k.
              xs ! i = (h1 + of_nat i * h2) mod dh_bit_array_size hs \<and>
              unat (xs ! i) =
                ((unat h1 + i * unat h2) mod 2 ^ 64) mod unat (dh_bit_array_size hs))"
proof -
  obtain xs where xs:
    "get_all_hashes hs bytes k = Inr xs"
    "length xs = unat k"
    "\<forall>i < unat k.
       xs ! i = (MurmurHash3 (dh_hash1 hs) bytes +
                 of_nat i * make_odd (MurmurHash3 (dh_hash2 hs) bytes))
                mod dh_bit_array_size hs"
    using get_all_hashes_nth [OF assms, of bytes k] by blast
  show ?thesis
    using xs by (simp add: make_odd_OR [symmetric] make_odd_odd probe_unat)
qed

theorem probe_indices_witness:
  "dh_bit_array_size (new_DoubleHasher 10) \<noteq> 0 \<and>
   MurmurHash3 0 [0x61] = 2104666948775428222 \<and>
   make_odd (MurmurHash3 0x1234567890abcdef [0x61]) = 12860086500741533637 \<and>
   get_all_hashes (new_DoubleHasher 10) [0x61] 3 = Inr [2, 9, 0] \<and>
   (\<exists>xs h1 h2.
      h1 = MurmurHash3 0 [0x61] \<and>
      h2 = make_odd (MurmurHash3 0x1234567890abcdef [0x61]) \<and> odd h2 \<and>
      get_all_hashes (new_DoubleHasher 10) [0x61] 3 = Inr xs \<and> length xs = 3 \<and>
      xs ! 0 = (h1 + 0 * h2) mod 10 \<and>
      xs ! 1 = (h1 + 1 * h2) mod 10 \<and>
      xs ! 2 = (h1 + 2 * h2) mod 10)"
proof -
  have nz: "dh_bit_array_size (new_DoubleHasher 10) \<noteq> 0"
    by (simp add: new_DoubleHasher_def)
  have h1: "MurmurHash3 0 [0x61] = 2104666948775428222"
    by code_simp
  have h2: "make_odd (MurmurHash3 0x1234567890abcdef [0x61]) = 12860086500741533637"
    by code_simp
  have xs: "get_all_hashes (new_DoubleHasher 10) [0x61] 3 = Inr [2, 9, 0]"
    by code_simp
  have "\<exists>xs h1 h2.
      h1 = MurmurHash3 0 [0x61] \<and>
      h2 = make_odd (MurmurHash3 0x1234567890abcdef [0x61]) \<and> odd h2 \<and>
      get_all_hashes (new_DoubleHasher 10) [0x61] 3 = Inr xs \<and> length xs = 3 \<and>
      xs ! 0 = (h1 + 0 * h2) mod 10 \<and>
      xs ! 1 = (h1 + 1 * h2) mod 10 \<and>
      xs ! 2 = (h1 + 2 * h2) mod 10"
    using probe_indices [OF nz, of "[0x61]" 3]
    by (auto simp: new_DoubleHasher_def)
  then show ?thesis
    using nz h1 h2 xs by blast
qed

text \<open>
  For the byte \<open>0x61\<close>, \<open>m = 10\<close> and \<open>k = 3\<close> the sum wraps around at \<open>i = 2\<close>: the index is 0, where the
  remainder of the sum of natural numbers would be 6.
\<close>

lemma probe_wraps_around:
  "(2104666948775428222 + 2 * 12860086500741533637 :: u64) mod 10 = 0 \<and>
   (2104666948775428222 + 2 * 12860086500741533637 :: nat) mod 10 = 6"
  by simp

section \<open>The range checks of the bit array\<close>

text \<open>
  Claim C10. Let the bit-array size \<open>m\<close> of a filter be at least one and let its hash
  engine reduce modulo \<open>m\<close>, as after construction. Then \<^verbatim>\<open>get_all_hashes\<close> returns, every
  index it returns is below \<open>m\<close>, and for every filter state \<open>g\<close> of that size (the states
  that \<^verbatim>\<open>insert\<close> runs through) \<^verbatim>\<open>set_bit\<close> and \<^verbatim>\<open>get_bit\<close> at such an index do what their
  code below the range check does: the branch of the check is not taken.
\<close>

theorem probes_in_range:
  assumes "m_bit_array_size f \<noteq> 0"
    and "dh_bit_array_size (m_hasher f) = m_bit_array_size f"
  shows "\<exists>xs. get_all_hashes (m_hasher f) bytes (m_hash_count f) = Inr xs \<and>
           (\<forall>x \<in> set xs. x < m_bit_array_size f \<and> \<not> x \<ge> m_bit_array_size f \<and>
              (\<forall>g. m_bit_array_size g = m_bit_array_size f \<longrightarrow>
                 bf_set_bit g x = set_bit_body g x \<and> get_bit g x = get_bit_body g x))"
proof -
  have nz: "dh_bit_array_size (m_hasher f) \<noteq> 0"
    using assms by simp
  obtain xs where xs:
    "get_all_hashes (m_hasher f) bytes (m_hash_count f) = Inr xs"
    "length xs = unat (m_hash_count f)"
    "\<forall>x \<in> set xs. x < dh_bit_array_size (m_hasher f)"
    using get_all_hashes_wf [OF nz, of bytes "m_hash_count f"] by blast
  have "\<forall>x \<in> set xs. x < m_bit_array_size f \<and> \<not> x \<ge> m_bit_array_size f \<and>
              (\<forall>g. m_bit_array_size g = m_bit_array_size f \<longrightarrow>
                 bf_set_bit g x = set_bit_body g x \<and> get_bit g x = get_bit_body g x)"
    using xs(3) assms(2) by (auto simp: bf_set_bit_def get_bit_def)
  then show ?thesis
    using xs(1) by simp
qed

theorem probes_in_range_witness:
  "m_bit_array_size full_filter \<noteq> 0 \<and>
   dh_bit_array_size (m_hasher full_filter) = m_bit_array_size full_filter \<and>
   (\<exists>xs. get_all_hashes (m_hasher full_filter) [0x61] (m_hash_count full_filter) = Inr xs \<and>
      (\<forall>x \<in> set xs. x < 10 \<and>
         bf_set_bit (clear full_filter) x = set_bit_body (clear full_filter) x \<and>
         get_bit full_filter x = get_bit_body full_filter x))"
proof -
  have a: "m_bit_array_size full_filter \<noteq> 0"
    by (simp add: full_filter_def)
  have b: "dh_bit_array_size (m_hasher full_filter) = m_bit_array_size full_filter"
    by (simp add: full_filter_def new_DoubleHasher_def)
  have c: "m_bit_array_size (clear full_filter) = m_bit_array_size full_filter"
    by (simp add: clear_def)
  have d: "m_bit_array_size full_filter = 10"
    by (simp add: full_filter_def)
  obtain xs where xs:
    "get_all_hashes (m_hasher full_filter) [0x61] (m_hash_count full_filter) = Inr xs"
    "\<forall>x \<in> set xs. x < m_bit_array_size full_filter \<and> \<not> x \<ge> m_bit_array_size full_filter \<and>
       (\<forall>g. m_bit_array_size g = m_bit_array_size full_filter \<longrightarrow>
          bf_set_bit g x = set_bit_body g x \<and> get_bit g x = get_bit_body g x)"
    using probes_in_range [OF a b, of "[0x61]"] by blast
  have "\<forall>x \<in> set xs. x < 10 \<and>
         bf_set_bit (clear full_filter) x = set_bit_body (clear full_filter) x \<and>
         get_bit full_filter x = get_bit_body full_filter x"
    using xs(2) c d by simp
  then show ?thesis
    using a b xs(1) by blast
qed

section \<open>Construction\<close>

lemma unat_bytes_of_bits:
  fixes m :: u64
  assumes "unat m + 7 < 2 ^ 64"
  shows "unat ((m + 7) div 8) = (unat m + 7) div 8"
proof -
  have "unat (m + 7) = unat m + unat (7 :: u64)"
    using assms by (subst unat_add_lem [THEN iffD1]) simp_all
  then show ?thesis
    by (simp add: unat_div8)
qed

lemma new_BloomFilter_explicit_Inr:
  assumes "new_BloomFilter_explicit L m k n = Inr f"
  shows "m \<noteq> 0 \<and> k \<noteq> 0 \<and> k \<le> 32 \<and>
         f = \<lparr>m_bit_array_size = m,
              m_bit_array_bytes = (m + 7) div 8,
              m_hash_count = k,
              m_expected_elements = n,
              m_false_positive_rate = estimate_false_positive_rate L m k n,
              m_inserted_count = 0,
              m_bit_array = replicate (unat ((m + 7) div 8)) 0,
              m_hasher = new_DoubleHasher m\<rparr>"
  using assms
  by (auto simp: new_BloomFilter_explicit_def Let_def MAX_HASH_FUNCTIONS_def
      split: if_splits)

lemma new_BloomFilter_Inr:
  assumes "new_BloomFilter L n p = Inr f"
  shows "n \<noteq> 0 \<and> \<not> double_le p (Val 0) \<and> \<not> double_ge p (Val 1) \<and> p \<noteq> NaN \<and>
         (\<exists>m k. calculate_optimal_bit_array_size L n p = Inr m \<and>
                calculate_optimal_hash_count L m n = Inr k \<and>
                f = \<lparr>m_bit_array_size = m,
                     m_bit_array_bytes = (m + 7) div 8,
                     m_hash_count = k,
                     m_expected_elements = n,
                     m_false_positive_rate = p,
                     m_inserted_count = 0,
                     m_bit_array = replicate (unat ((m + 7) div 8)) 0,
                     m_hasher = new_DoubleHasher m\<rparr>)"
proof -
  have n: "n \<noteq> 0" and g: "\<not> double_le p (Val 0)" "\<not> double_ge p (Val 1)"
    using assms by (auto simp: new_BloomFilter_def split: if_splits)
  obtain m where m: "calculate_optimal_bit_array_size L n p = Inr m"
    using assms n g by (cases "calculate_optimal_bit_array_size L n p")
      (auto simp: new_BloomFilter_def)
  obtain k where k: "calculate_optimal_hash_count L m n = Inr k"
    using assms n g m by (cases "calculate_optimal_hash_count L m n")
      (auto simp: new_BloomFilter_def)
  have "p \<noteq> NaN"
    using m n g by (auto simp: calculate_optimal_bit_array_size_def)
  moreover have "f = \<lparr>m_bit_array_size = m,
                     m_bit_array_bytes = (m + 7) div 8,
                     m_hash_count = k,
                     m_expected_elements = n,
                     m_false_positive_rate = p,
                     m_inserted_count = 0,
                     m_bit_array = replicate (unat ((m + 7) div 8)) 0,
                     m_hasher = new_DoubleHasher m\<rparr>"
    using assms n g m k by (simp add: new_BloomFilter_def Let_def)
  ultimately show ?thesis
    using n g m k by blast
qed

lemma calculate_optimal_bit_array_size_ge:
  "calculate_optimal_bit_array_size L n p = Inr m \<Longrightarrow> 64 \<le> m"
  by (auto simp: calculate_optimal_bit_array_size_def MIN_BIT_ARRAY_SIZE_def Let_def
      split: if_splits option.splits)

lemma calculate_optimal_hash_count_range:
  "calculate_optimal_hash_count L m n = Inr k \<Longrightarrow> 1 \<le> k \<and> k \<le> 32"
  by (auto simp: calculate_optimal_hash_count_def MIN_HASH_FUNCTIONS_def MAX_HASH_FUNCTIONS_def
      split: if_splits option.splits)

lemma double_open_interval:
  "\<not> double_le p (Val 0) \<Longrightarrow> \<not> double_ge p (Val 1) \<Longrightarrow> p \<noteq> NaN \<Longrightarrow>
   double_lt (Val 0) p \<and> double_lt p (Val 1)"
  by (cases p) (auto simp: double_ge_def double_lt_def)

text \<open>
  Both constructors establish the data model, unless the bit-array size is one of the
  seven largest values of \<^verbatim>\<open>size_t\<close>, where \<^verbatim>\<open>bit_array_size + 7\<close> wraps around.
\<close>

lemma new_BloomFilter_explicit_well_formed:
  assumes "new_BloomFilter_explicit L m k n = Inr f" and "unat m + 7 < 2 ^ 64"
  shows "well_formed f"
  using new_BloomFilter_explicit_Inr [OF assms(1)] unat_bytes_of_bits [OF assms(2)]
  by (simp add: well_formed_def new_DoubleHasher_def)

lemma new_BloomFilter_well_formed:
  assumes "new_BloomFilter L n p = Inr f" and "unat (m_bit_array_size f) + 7 < 2 ^ 64"
  shows "well_formed f"
proof -
  obtain m k where mk:
    "calculate_optimal_bit_array_size L n p = Inr m"
    "calculate_optimal_hash_count L m n = Inr k"
    "f = \<lparr>m_bit_array_size = m,
          m_bit_array_bytes = (m + 7) div 8,
          m_hash_count = k,
          m_expected_elements = n,
          m_false_positive_rate = p,
          m_inserted_count = 0,
          m_bit_array = replicate (unat ((m + 7) div 8)) 0,
          m_hasher = new_DoubleHasher m\<rparr>"
    using new_BloomFilter_Inr [OF assms(1)] by blast
  have "64 \<le> m"
    using mk(1) by (rule calculate_optimal_bit_array_size_ge)
  then have "m \<noteq> 0"
    by auto
  moreover have "unat ((m + 7) div 8) = (unat m + 7) div 8"
    using assms(2) mk(3) by (simp add: unat_bytes_of_bits)
  ultimately show ?thesis
    using mk(3) by (simp add: well_formed_def new_DoubleHasher_def)
qed

subsection \<open>What the operations leave unchanged\<close>

lemma bf_set_bit_frame:
  "bf_set_bit f h = Inr f' \<Longrightarrow> f' = f\<lparr>m_bit_array := m_bit_array f'\<rparr>"
  by (auto simp: bf_set_bit_def set_bit_body_def Let_def split: if_splits)

lemma set_bits_frame:
  "set_bits f hs = Inr f' \<Longrightarrow> f' = f\<lparr>m_bit_array := m_bit_array f'\<rparr>"
proof (induction hs arbitrary: f)
  case Nil
  then show ?case by simp
next
  case (Cons h hs)
  then obtain f1 where f1: "bf_set_bit f h = Inr f1" "set_bits f1 hs = Inr f'"
    by (cases "bf_set_bit f h") simp_all
  have "f1 = f\<lparr>m_bit_array := m_bit_array f1\<rparr>"
    using f1(1) by (rule bf_set_bit_frame)
  moreover have "f' = f1\<lparr>m_bit_array := m_bit_array f'\<rparr>"
    using f1(2) by (rule Cons.IH)
  ultimately show ?case
    by (metis BloomFilter.update_convs(7) BloomFilter.surjective)
qed

lemma bf_insert_frame:
  assumes "bf_insert f d = Inr f'"
  shows "m_bit_array_size f' = m_bit_array_size f \<and> m_hash_count f' = m_hash_count f \<and>
         m_false_positive_rate f' = m_false_positive_rate f"
proof (cases "d = None \<or> d = Some []")
  case True
  then show ?thesis
    using assms by (auto simp: bf_insert_def)
next
  case False
  then obtain bytes where d: "d = Some bytes" "bytes \<noteq> []"
    by (cases d) auto
  obtain hs where hs: "get_all_hashes (m_hasher f) bytes (m_hash_count f) = Inr hs"
    using assms d by (cases "get_all_hashes (m_hasher f) bytes (m_hash_count f)")
      (simp_all add: bf_insert_def)
  obtain f1 where f1: "set_bits f hs = Inr f1"
    using assms d hs by (cases "set_bits f hs") (simp_all add: bf_insert_def)
  have "f' = f1\<lparr>m_inserted_count := m_inserted_count f1 + 1\<rparr>"
    using assms d hs f1 by (simp add: bf_insert_def)
  moreover have "f1 = f\<lparr>m_bit_array := m_bit_array f1\<rparr>"
    using f1 by (rule set_bits_frame)
  ultimately show ?thesis
    by (metis BloomFilter.select_convs(1,3,5) BloomFilter.surjective
        BloomFilter.update_convs(6,7))
qed

lemma insert_all_frame:
  "insert_all f ds = Inr f' \<Longrightarrow>
   m_bit_array_size f' = m_bit_array_size f \<and> m_hash_count f' = m_hash_count f \<and>
   m_false_positive_rate f' = m_false_positive_rate f"
proof (induction ds arbitrary: f)
  case Nil
  then show ?case by simp
next
  case (Cons d ds)
  then obtain f1 where f1: "bf_insert f d = Inr f1" "insert_all f1 ds = Inr f'"
    by (cases "bf_insert f d") simp_all
  show ?case
    using bf_insert_frame [OF f1(1)] Cons.IH [OF f1(2)] by simp
qed

subsection \<open>The invariants of a constructed filter\<close>

text \<open>
  Claim C2, as stated, fails: the explicit constructor accepts every \<open>m \<ge> 1\<close> and computes
  the target rate with the estimator, which returns zero for a capacity of zero. The call
  \<^verbatim>\<open>BloomFilter(10, 3, 0)\<close> returns a filter of ten bits with a target rate of zero.
\<close>

theorem explicit_mode_invariants_counterexample:
  "new_BloomFilter_explicit sample_libm 10 3 0 =
     Inr \<lparr>m_bit_array_size = 10,
          m_bit_array_bytes = 2,
          m_hash_count = 3,
          m_expected_elements = 0,
          m_false_positive_rate = Val 0,
          m_inserted_count = 0,
          m_bit_array = [0, 0],
          m_hasher = new_DoubleHasher 10\<rparr> \<and>
   \<not> (64 :: u64) \<le> 10 \<and> \<not> double_lt (Val 0) (Val 0)"
proof -
  have "unat (2 :: u64) = Suc (Suc 0)"
    by simp
  then have "replicate (unat (2 :: u64)) (0 :: u8) = [0, 0]"
    by (simp only: replicate.simps)
  then show ?thesis
    by (simp add: new_BloomFilter_explicit_def estimate_false_positive_rate_def
        MAX_HASH_FUNCTIONS_def double_lt_def)
qed

text \<open>
  Claim C2, amended. A filter that the derived constructor returns has \<open>m \<ge> 64\<close>,
  \<open>1 \<le> k \<le> 32\<close> and a target rate strictly between 0 and 1. A filter that the explicit
  constructor returns has the \<open>m \<ge> 1\<close> and the \<open>k\<close> with \<open>1 \<le> k \<le> 32\<close> that it was given,
  and as target rate the value of the estimator at the capacity, which is 0 for a
  capacity of 0. A run of \<^verbatim>\<open>insert\<close> calls that returns, and \<^verbatim>\<open>clear\<close>, leave \<open>m\<close>, \<open>k\<close> and the
  target rate as they were; \<^verbatim>\<open>contains\<close> and the accessors do not write to the filter.
\<close>

theorem construction_invariants:
  "(new_BloomFilter L n p = Inr f \<longrightarrow>
      64 \<le> m_bit_array_size f \<and> 1 \<le> m_hash_count f \<and> m_hash_count f \<le> 32 \<and>
      m_false_positive_rate f = p \<and>
      double_lt (Val 0) (m_false_positive_rate f) \<and> double_lt (m_false_positive_rate f) (Val 1)) \<and>
   (new_BloomFilter_explicit L m k n' = Inr g \<longrightarrow>
      m_bit_array_size g = m \<and> 1 \<le> m \<and> m_hash_count g = k \<and> 1 \<le> k \<and> k \<le> 32 \<and>
      m_false_positive_rate g = estimate_false_positive_rate L m k n' \<and>
      (n' = 0 \<longrightarrow> m_false_positive_rate g = Val 0)) \<and>
   (insert_all h ds = Inr h' \<longrightarrow>
      m_bit_array_size h' = m_bit_array_size h \<and> m_hash_count h' = m_hash_count h \<and>
      m_false_positive_rate h' = m_false_positive_rate h) \<and>
   m_bit_array_size (clear h) = m_bit_array_size h \<and> m_hash_count (clear h) = m_hash_count h \<and>
   m_false_positive_rate (clear h) = m_false_positive_rate h"
proof (intro conjI impI)
  assume a: "new_BloomFilter L n p = Inr f"
  obtain m' k' where mk:
    "calculate_optimal_bit_array_size L n p = Inr m'"
    "calculate_optimal_hash_count L m' n = Inr k'"
    "f = \<lparr>m_bit_array_size = m',
          m_bit_array_bytes = (m' + 7) div 8,
          m_hash_count = k',
          m_expected_elements = n,
          m_false_positive_rate = p,
          m_inserted_count = 0,
          m_bit_array = replicate (unat ((m' + 7) div 8)) 0,
          m_hasher = new_DoubleHasher m'\<rparr>"
    using new_BloomFilter_Inr [OF a] by blast
  have p: "double_lt (Val 0) p \<and> double_lt p (Val 1)"
    using new_BloomFilter_Inr [OF a] by (simp add: double_open_interval)
  show "64 \<le> m_bit_array_size f"
    using calculate_optimal_bit_array_size_ge [OF mk(1)] mk(3) by simp
  show "1 \<le> m_hash_count f" "m_hash_count f \<le> 32"
    using calculate_optimal_hash_count_range [OF mk(2)] mk(3) by simp_all
  show "m_false_positive_rate f = p"
    using mk(3) by simp
  then show "double_lt (Val 0) (m_false_positive_rate f)"
    "double_lt (m_false_positive_rate f) (Val 1)"
    using p by simp_all
next
  assume b: "new_BloomFilter_explicit L m k n' = Inr g"
  note g = new_BloomFilter_explicit_Inr [OF b]
  show "m_bit_array_size g = m" "m_hash_count g = k" "k \<le> 32"
    "m_false_positive_rate g = estimate_false_positive_rate L m k n'"
    using g by simp_all
  show "1 \<le> m" "1 \<le> k"
    using g by (simp_all add: word_le_nat_alt unat_gt_0 Suc_le_eq)
  show "m_false_positive_rate g = Val 0" if "n' = 0"
    using g that by (simp add: estimate_false_positive_rate_def)
next
  assume c: "insert_all h ds = Inr h'"
  show "m_bit_array_size h' = m_bit_array_size h" "m_hash_count h' = m_hash_count h"
    "m_false_positive_rate h' = m_false_positive_rate h"
    using insert_all_frame [OF c] by simp_all
next
  show "m_bit_array_size (clear h) = m_bit_array_size h"
    "m_hash_count (clear h) = m_hash_count h"
    "m_false_positive_rate (clear h) = m_false_positive_rate h"
    by (simp_all add: clear_def)
qed

theorem construction_invariants_witness:
  "(\<exists>f. new_BloomFilter sample_libm 1000 (Val (1 / 100)) = Inr f \<and>
      64 \<le> m_bit_array_size f \<and> 1 \<le> m_hash_count f \<and> m_hash_count f \<le> 32 \<and>
      double_lt (Val 0) (m_false_positive_rate f) \<and> double_lt (m_false_positive_rate f) (Val 1)) \<and>
   (\<exists>g. new_BloomFilter_explicit sample_libm 10 3 0 = Inr g \<and>
      m_bit_array_size g = 10 \<and> m_hash_count g = 3 \<and> m_false_positive_rate g = Val 0) \<and>
   (\<exists>h'. insert_all (clear full_filter) [Some [0x61]] = Inr h' \<and>
      m_bit_array_size h' = 10 \<and> m_hash_count h' = 3 \<and>
      m_false_positive_rate h' = Val (1 / 100))"
proof -
  obtain f where f: "new_BloomFilter sample_libm 1000 (Val (1 / 100)) = Inr f"
    by (simp add: new_BloomFilter_def calculate_optimal_bit_array_size_def
        calculate_optimal_hash_count_def sample_libm_def double_ge_def Let_def)
  obtain g where g: "new_BloomFilter_explicit sample_libm 10 3 0 = Inr g"
    by (simp add: new_BloomFilter_explicit_def MAX_HASH_FUNCTIONS_def Let_def)
  obtain arr' where h': "insert_all (clear full_filter) [Some [0x61]] =
      Inr (clear full_filter\<lparr>m_bit_array := arr',
             m_inserted_count := m_inserted_count (clear full_filter) +
               of_nat (nonempty_calls [Some [0x61]])\<rparr>)"
    "length arr' = length (m_bit_array (clear full_filter))"
    "\<forall>n. stored_bit (m_bit_array (clear full_filter)) n \<longrightarrow> stored_bit arr' n"
    using insert_all_wf [OF clear_wf [OF full_filter_wf], of "[Some [0x61]]"] by blast
  note inv = construction_invariants [of sample_libm 1000 "Val (1 / 100)" f 10 3 0 g
      "clear full_filter" "[Some [0x61]]"
      "clear full_filter\<lparr>m_bit_array := arr',
             m_inserted_count := m_inserted_count (clear full_filter) +
               of_nat (nonempty_calls [Some [0x61]])\<rparr>"]
  have a: "\<exists>f. new_BloomFilter sample_libm 1000 (Val (1 / 100)) = Inr f \<and>
      64 \<le> m_bit_array_size f \<and> 1 \<le> m_hash_count f \<and> m_hash_count f \<le> 32 \<and>
      double_lt (Val 0) (m_false_positive_rate f) \<and> double_lt (m_false_positive_rate f) (Val 1)"
    using inv f by blast
  have b: "\<exists>g. new_BloomFilter_explicit sample_libm 10 3 0 = Inr g \<and>
      m_bit_array_size g = 10 \<and> m_hash_count g = 3 \<and> m_false_positive_rate g = Val 0"
    using inv g by blast
  have c: "\<exists>h'. insert_all (clear full_filter) [Some [0x61]] = Inr h' \<and>
      m_bit_array_size h' = 10 \<and> m_hash_count h' = 3 \<and>
      m_false_positive_rate h' = Val (1 / 100)"
    using inv h'(1) by (simp add: clear_def full_filter_def)
  show ?thesis
    by (intro conjI a b c)
qed

subsection \<open>Errors\<close>

text \<open>
  The explicit constructor fails exactly when \<open>m = 0\<close> or \<open>k\<close> is outside \<open>[1, 32]\<close>, and
  then with \<open>InvalidParameter\<close>.
\<close>

lemma new_BloomFilter_explicit_raises:
  "new_BloomFilter_explicit L m k n = Inl e \<longleftrightarrow>
     e = InvalidParameter \<and> (m = 0 \<or> k = 0 \<or> 32 < k)"
  by (auto simp: new_BloomFilter_explicit_def Let_def MAX_HASH_FUNCTIONS_def)

text \<open>
  The derived constructor raises \<open>InvalidParameter\<close> exactly when \<open>n = 0\<close> or one of the two
  comparisons of its guard holds. For a rate that is not a NaN that is the case exactly
  when the rate is not strictly between 0 and 1; a NaN passes the guard.
\<close>

lemma calculate_optimal_bit_array_size_error:
  "calculate_optimal_bit_array_size L n p = Inl e \<Longrightarrow> e = BadFloatConversion"
  by (auto simp: calculate_optimal_bit_array_size_def Let_def split: if_splits option.splits)

lemma calculate_optimal_hash_count_error:
  "calculate_optimal_hash_count L m n = Inl e \<Longrightarrow> e = BadFloatConversion"
  by (auto simp: calculate_optimal_hash_count_def split: if_splits option.splits)

lemma new_BloomFilter_raises:
  "new_BloomFilter L n p = Inl InvalidParameter \<longleftrightarrow>
     n = 0 \<or> double_le p (Val 0) \<or> double_ge p (Val 1)"
proof (cases "n = 0 \<or> double_le p (Val 0) \<or> double_ge p (Val 1)")
  case True
  then show ?thesis
    by (auto simp: new_BloomFilter_def)
next
  case False
  have "new_BloomFilter L n p \<noteq> Inl InvalidParameter"
  proof (cases "calculate_optimal_bit_array_size L n p")
    case (Inl e)
    then show ?thesis
      using False calculate_optimal_bit_array_size_error [OF Inl]
      by (simp add: new_BloomFilter_def)
  next
    case (Inr m)
    show ?thesis
    proof (cases "calculate_optimal_hash_count L m n")
      case (Inl e)
      then show ?thesis
        using False Inr calculate_optimal_hash_count_error [OF Inl]
        by (simp add: new_BloomFilter_def)
    next
      case k: (Inr k)
      then show ?thesis
        using False Inr by (simp add: new_BloomFilter_def Let_def)
    qed
  qed
  then show ?thesis
    using False by simp
qed

lemma double_outside_interval:
  "p \<noteq> NaN \<Longrightarrow>
   double_le p (Val 0) \<or> double_ge p (Val 1) \<longleftrightarrow>
     \<not> (double_lt (Val 0) p \<and> double_lt p (Val 1))"
  by (cases p) (auto simp: double_ge_def double_lt_def)

lemma new_BloomFilter_NaN:
  "n \<noteq> 0 \<Longrightarrow> new_BloomFilter L n NaN = Inl BadFloatConversion"
  by (simp add: new_BloomFilter_def calculate_optimal_bit_array_size_def double_ge_def)

text \<open>
  On a filter that satisfies the data model no operation fails: \<^verbatim>\<open>insert\<close>, \<^verbatim>\<open>contains\<close>
  and \<^verbatim>\<open>count_set_bits\<close> return, and \<^verbatim>\<open>insert\<close> and \<^verbatim>\<open>clear\<close> keep the data model.
\<close>

lemma operations_total:
  assumes "well_formed f"
  shows "(\<exists>f'. bf_insert f d = Inr f' \<and> well_formed f') \<and>
         (\<exists>b. contains f d = Inr b) \<and>
         (\<exists>c. count_set_bits f = Inr c) \<and>
         well_formed (clear f)"
proof (intro conjI)
  obtain arr' where ins:
    "bf_insert f d =
       Inr (f\<lparr>m_bit_array := arr',
              m_inserted_count := m_inserted_count f + of_nat (nonempty_calls [d])\<rparr>)"
    "length arr' = length (m_bit_array f)"
    "\<forall>n. stored_bit (m_bit_array f) n \<longrightarrow> stored_bit arr' n"
    using bf_insert_any [OF assms, of d] by blast
  have "well_formed (f\<lparr>m_bit_array := arr',
              m_inserted_count := m_inserted_count f + of_nat (nonempty_calls [d])\<rparr>)"
    using assms ins(2) by (simp add: well_formed_def)
  then show "\<exists>f'. bf_insert f d = Inr f' \<and> well_formed f'"
    using ins(1) by simp
next
  show "\<exists>b. contains f d = Inr b"
  proof (cases "d = None \<or> d = Some []")
    case True
    then show ?thesis
      by (auto simp: contains_def)
  next
    case False
    then obtain bytes where d: "d = Some bytes" "bytes \<noteq> []"
      by (cases d) auto
    obtain hs arr' where hs:
      "get_all_hashes (m_hasher f) bytes (m_hash_count f) = Inr hs"
      "\<forall>h \<in> set hs. h < m_bit_array_size f"
      "bf_insert f (Some bytes) =
         Inr (f\<lparr>m_bit_array := arr', m_inserted_count := m_inserted_count f + 1\<rparr>)"
      "length arr' = length (m_bit_array f)"
      "\<forall>n. stored_bit arr' n \<longleftrightarrow> stored_bit (m_bit_array f) n \<or> n \<in> unat ` set hs"
      using bf_insert_wf [OF assms d(2)] by blast
    show ?thesis
      using contains_wf [OF assms d(2) hs(1,2)] d(1) by simp
  qed
next
  show "\<exists>c. count_set_bits f = Inr c"
    using count_set_bits_wf [OF assms] by blast
next
  show "well_formed (clear f)"
    by (rule clear_wf [OF assms])
qed

text \<open>
  A filter of \<open>m \<ge> 1\<close> bits whose byte array is empty: the first \<^verbatim>\<open>set_bit\<close> of an
  \<^verbatim>\<open>insert\<close> indexes past the end of the array.
\<close>

lemma insert_empty_array:
  assumes "m_bit_array f = []" and "m_bit_array_size f \<noteq> 0"
    and "dh_bit_array_size (m_hasher f) = m_bit_array_size f"
    and "m_hash_count f \<noteq> 0" and "bytes \<noteq> []"
  shows "bf_insert f (Some bytes) = Inl OutOfBounds"
proof -
  have nz: "dh_bit_array_size (m_hasher f) \<noteq> 0"
    using assms(2,3) by simp
  obtain xs where xs:
    "get_all_hashes (m_hasher f) bytes (m_hash_count f) = Inr xs"
    "length xs = unat (m_hash_count f)"
    "\<forall>x \<in> set xs. x < dh_bit_array_size (m_hasher f)"
    using get_all_hashes_wf [OF nz, of bytes "m_hash_count f"] by blast
  have "0 < length xs"
    using xs(2) assms(4) by (simp add: unat_gt_0)
  then obtain x xs' where c: "xs = x # xs'"
    by (cases xs) auto
  have "x < m_bit_array_size f"
    using xs(3) c assms(3) by simp
  then have "\<not> m_bit_array_size f \<le> x"
    by simp
  then have "bf_set_bit f x = Inl OutOfBounds"
    using assms(1) by (simp add: bf_set_bit_def set_bit_body_def)
  then have "set_bits f xs = Inl OutOfBounds"
    using c by simp
  then show ?thesis
    using assms(5) xs(1) by (simp add: bf_insert_def)
qed

text \<open>
  Claim C6 holds of the explicit constructor, of the derived constructor at every rate
  that is not a NaN, and of the operations on every filter that satisfies the data
  model (the four lemmas above). It fails at two inputs, evaluated here.
  \<^item> \<^verbatim>\<open>BloomFilter(1000, NaN)\<close>: a NaN is not strictly between 0 and 1, but it passes
    both comparisons of the guard, so no \<open>InvalidParameter\<close> is raised; the constructor
    goes on to convert a NaN to \<^verbatim>\<open>size_t\<close>.
  \<^item> \<^verbatim>\<open>BloomFilter(SIZE_MAX, 1, 0)\<close>: \<^verbatim>\<open>bit_array_size + 7\<close> wraps around to 6, the byte
    array gets \<open>6 / 8 = 0\<close> bytes, and the constructor returns. \<^verbatim>\<open>insert\<close> of the one byte
    \<open>0x61\<close> on this filter then writes past the end of the empty array.
\<close>

theorem construction_errors_failing_inputs:
  "\<not> (double_lt (Val 0) NaN \<and> double_lt NaN (Val 1)) \<and>
   new_BloomFilter sample_libm 1000 NaN = Inl BadFloatConversion \<and>
   new_BloomFilter sample_libm 1000 NaN \<noteq> Inl InvalidParameter \<and>
   new_BloomFilter_explicit sample_libm 18446744073709551615 1 0 =
     Inr \<lparr>m_bit_array_size = 18446744073709551615,
          m_bit_array_bytes = 0,
          m_hash_count = 1,
          m_expected_elements = 0,
          m_false_positive_rate = Val 0,
          m_inserted_count = 0,
          m_bit_array = [],
          m_hasher = new_DoubleHasher 18446744073709551615\<rparr> \<and>
   bf_insert \<lparr>m_bit_array_size = 18446744073709551615,
          m_bit_array_bytes = 0,
          m_hash_count = 1,
          m_expected_elements = 0,
          m_false_positive_rate = Val 0,
          m_inserted_count = 0,
          m_bit_array = [],
          m_hasher = new_DoubleHasher 18446744073709551615\<rparr> (Some [0x61]) = Inl OutOfBounds"
proof (intro conjI)
  show "\<not> (double_lt (Val 0) NaN \<and> double_lt NaN (Val 1))"
    by (simp add: double_lt_def)
  show nan: "new_BloomFilter sample_libm 1000 NaN = Inl BadFloatConversion"
    by (rule new_BloomFilter_NaN) simp
  show "new_BloomFilter sample_libm 1000 NaN \<noteq> Inl InvalidParameter"
    using nan by simp
  show "new_BloomFilter_explicit sample_libm 18446744073709551615 1 0 =
     Inr \<lparr>m_bit_array_size = 18446744073709551615,
          m_bit_array_bytes = 0,
          m_hash_count = 1,
          m_expected_elements = 0,
          m_false_positive_rate = Val 0,
          m_inserted_count = 0,
          m_bit_array = [],
          m_hasher = new_DoubleHasher 18446744073709551615\<rparr>"
    by (simp add: new_BloomFilter_explicit_def estimate_false_positive_rate_def
        MAX_HASH_FUNCTIONS_def)
  show "bf_insert \<lparr>m_bit_array_size = 18446744073709551615,
          m_bit_array_bytes = 0,
          m_hash_count = 1,
          m_expected_elements = 0,
          m_false_positive_rate = Val 0,
          m_inserted_count = 0,
          m_bit_array = [],
          m_hasher = new_DoubleHasher 18446744073709551615\<rparr> (Some [0x61]) = Inl OutOfBounds"
    by (rule insert_empty_array) (simp_all add: new_DoubleHasher_def)
qed

end
